theory Spec2Isabelle
  imports Main
begin

section \<open>The graph representation\<close>

text \<open>
  The pass \<open>specializeAutogradZero\<close> works on the JIT graph: values identified by
  their address (\<open>Value*\<close>), nodes with ordered inputs and outputs, and nested blocks.
  A value is modelled by a number standing for its address, a node carries a number of
  its own (the address of the \<open>Node\<close>), its kind, its inputs, its outputs and its blocks.
\<close>

type_synonym vid = nat

text \<open>The enumeration of the pass, in the order of the source: \<open>Nonzero\<close> is enumerator 0.\<close>

datatype State = Nonzero | Zero | Unknown

text \<open>
  Modelled from the spec: the type annotations of values. The pass asks three questions
  of a type: whether it is a \<open>TensorType\<close> object (and then whether its \<open>undefined()\<close>
  flag is known), whether it is a subtype of the tensor type, and whether it is a
  subtype of the list-of-tensors type. \<open>TensorSubtype\<close> stands for a type that is no
  \<open>TensorType\<close> object yet answers the second question with yes.
\<close>

datatype jtype = TensorType "bool option" | TensorSubtype | ListOfTensors | IntType | OtherType

datatype kind =
    prim_AutogradAdd | prim_AutogradZero | prim_profile | prim_BailOut | prim_Guard
  | prim_If | prim_AutogradAnyNonZero | aten_add | prim_Constant int | prim_Param
  | other_kind nat

datatype node = Node (nid: nat) (kind: kind) (inputs: "vid list") (outputs: "vid list")
    (blocks: "block list")
  and block = Block (bnodes: "node list") (boutputs: "vid list")

datatype error = out_of_range | assert_failed

record graph =
  ginputs :: "vid list"
  gnodes :: "node list"
  goutputs :: "vid list"
  vtype :: "vid \<Rightarrow> jtype"

text \<open>
  The graph during the traversal: \<open>pending\<close> starts with the node the iterator
  \<open>it\<close> points to, \<open>passed\<close> holds the nodes before it, both in program order.
\<close>

record trav =
  t_inputs :: "vid list"
  passed :: "node list"
  pending :: "node list"
  t_outputs :: "vid list"
  t_type :: "vid \<Rightarrow> jtype"

definition begin_trav :: "graph \<Rightarrow> trav" where
  "begin_trav g = \<lparr>t_inputs = ginputs g, passed = [], pending = gnodes g,
     t_outputs = goutputs g, t_type = vtype g\<rparr>"

definition graph_of :: "trav \<Rightarrow> graph" where
  "graph_of t = \<lparr>ginputs = t_inputs t, gnodes = passed t @ pending t,
     goutputs = t_outputs t, vtype = t_type t\<rparr>"

definition ebind :: "error + 'a \<Rightarrow> ('a \<Rightarrow> error + 'b) \<Rightarrow> error + 'b" where
  "ebind m f = (case m of Inl e \<Rightarrow> Inl e | Inr x \<Rightarrow> f x)"

subsection \<open>Reading a graph\<close>

primrec uses_node :: "node \<Rightarrow> vid list" and uses_block :: "block \<Rightarrow> vid list" where
  "uses_node (Node i k ins outs bs) = ins @ concat (map uses_block bs)"
| "uses_block (Block ns os) = concat (map uses_node ns) @ os"

primrec defs_node :: "node \<Rightarrow> vid list" and defs_block :: "block \<Rightarrow> vid list" where
  "defs_node (Node i k ins outs bs) = outs @ concat (map defs_block bs)"
| "defs_block (Block ns os) = concat (map defs_node ns)"

primrec ids_node :: "node \<Rightarrow> nat list" and ids_block :: "block \<Rightarrow> nat list" where
  "ids_node (Node i k ins outs bs) = i # concat (map ids_block bs)"
| "ids_block (Block ns os) = concat (map ids_node ns)"

primrec subnodes_node :: "node \<Rightarrow> node list" and subnodes_block :: "block \<Rightarrow> node list" where
  "subnodes_node (Node i k ins outs bs) = Node i k ins outs bs # concat (map subnodes_block bs)"
| "subnodes_block (Block ns os) = concat (map subnodes_node ns)"

definition uses :: "trav \<Rightarrow> vid list" where
  "uses t = concat (map uses_node (passed t @ pending t)) @ t_outputs t"

definition defs :: "trav \<Rightarrow> vid list" where
  "defs t = concat (map defs_node (passed t @ pending t))"

definition node_ids :: "trav \<Rightarrow> nat list" where
  "node_ids t = concat (map ids_node (passed t @ pending t))"

text \<open>\<open>Node::input(i)\<close> is \<open>inputs_.at(i)\<close>; \<open>Node::output()\<close> asserts a single output.\<close>

definition input_at :: "node \<Rightarrow> nat \<Rightarrow> error + vid" where
  "input_at n i = (if i < length (inputs n) then Inr (inputs n ! i) else Inl out_of_range)"

definition output_of :: "node \<Rightarrow> error + vid" where
  "output_of n = (case outputs n of [v] \<Rightarrow> Inr v | _ \<Rightarrow> Inl assert_failed)"

text \<open>
  \<open>Value::node()\<close>: the node that produces a value; for a graph input it is the
  parameter node of the graph.
\<close>

definition param_node :: "trav \<Rightarrow> node" where
  "param_node t = Node 0 prim_Param [] (t_inputs t) []"

definition producer :: "trav \<Rightarrow> vid \<Rightarrow> node option" where
  "producer t v =
     find (\<lambda>m. v \<in> set (outputs m)) (concat (map subnodes_node (passed t @ pending t)))"

definition node_of :: "trav \<Rightarrow> vid \<Rightarrow> node" where
  "node_of t v = (case producer t v of None \<Rightarrow> param_node t | Some m \<Rightarrow> m)"

text \<open>Modelled from the spec: the three queries on a type annotation.\<close>

definition cast_TensorType :: "jtype \<Rightarrow> bool option option" where
  "cast_TensorType tp = (case tp of TensorType u \<Rightarrow> Some u | _ \<Rightarrow> None)"

definition isSubtypeOf_Tensor :: "jtype \<Rightarrow> bool" where
  "isSubtypeOf_Tensor tp = (case tp of TensorType u \<Rightarrow> True | TensorSubtype \<Rightarrow> True | _ \<Rightarrow> False)"

definition isSubtypeOf_ListOfTensors :: "jtype \<Rightarrow> bool" where
  "isSubtypeOf_ListOfTensors tp = (case tp of ListOfTensors \<Rightarrow> True | _ \<Rightarrow> False)"

text \<open>\<open>expect<TensorType>()\<close> asserts that the cast succeeds.\<close>

definition expect_TensorType :: "jtype \<Rightarrow> error + bool option" where
  "expect_TensorType tp = (case cast_TensorType tp of None \<Rightarrow> Inl assert_failed | Some u \<Rightarrow> Inr u)"

subsection \<open>Mutating a graph\<close>

text \<open>
  Modelled from the spec: the mutation primitives of the host graph (replace all uses of
  a value, delete a node only when none of its outputs is used, insert a node before or
  after a node, move a node before another one, construct a constant producer and an
  ordinary operation node). A new value or node gets an address no live value or node has.
\<close>

definition fresh_value :: "trav \<Rightarrow> vid" where
  "fresh_value t = Suc (fold max (t_inputs t @ uses t @ defs t) 0)"

definition fresh_node :: "trav \<Rightarrow> nat" where
  "fresh_node t = Suc (fold max (node_ids t) 0)"

definition subst :: "vid \<Rightarrow> vid \<Rightarrow> vid \<Rightarrow> vid" where
  "subst v w x = (if x = v then w else x)"

primrec rauw_node :: "vid \<Rightarrow> vid \<Rightarrow> node \<Rightarrow> node"
  and rauw_block :: "vid \<Rightarrow> vid \<Rightarrow> block \<Rightarrow> block" where
  "rauw_node v w (Node i k ins outs bs) =
     Node i k (map (subst v w) ins) outs (map (rauw_block v w) bs)"
| "rauw_block v w (Block ns os) = Block (map (rauw_node v w) ns) (map (subst v w) os)"

definition replaceAllUsesWith :: "vid \<Rightarrow> vid \<Rightarrow> trav \<Rightarrow> trav" where
  "replaceAllUsesWith v w t =
     t\<lparr>passed := map (rauw_node v w) (passed t),
       pending := map (rauw_node v w) (pending t),
       t_outputs := map (subst v w) (t_outputs t)\<rparr>"

text \<open>
  \<open>it.destroyCurrent()\<close>: the iterator steps back, the node is destroyed; destroying
  asserts that no output of the node has a use left. The \<open>++it\<close> of the loop then
  reaches the node that followed the destroyed one.
\<close>

definition destroyCurrent :: "trav \<Rightarrow> error + trav" where
  "destroyCurrent t =
     (case pending t of
        [] \<Rightarrow> Inl assert_failed
      | n # rest \<Rightarrow>
          if list_ex (\<lambda>v. v \<in> set (uses t)) (outputs n) then Inl assert_failed
          else Inr (t\<lparr>pending := rest\<rparr>))"

definition insert_before :: "node \<Rightarrow> trav \<Rightarrow> trav" where
  "insert_before m t = t\<lparr>passed := passed t @ [m]\<rparr>"

definition insert_after :: "node \<Rightarrow> trav \<Rightarrow> trav" where
  "insert_after m t =
     (case pending t of [] \<Rightarrow> t\<lparr>pending := [m]\<rparr> | n # rest \<Rightarrow> t\<lparr>pending := n # m # rest\<rparr>)"

definition setType :: "vid \<Rightarrow> jtype \<Rightarrow> trav \<Rightarrow> trav" where
  "setType v tp t = t\<lparr>t_type := (t_type t)(v := tp)\<rparr>"

text \<open>\<open>g->insertConstant(c)\<close> with the insertion point before the current node.\<close>

definition insertConstant :: "int \<Rightarrow> trav \<Rightarrow> vid \<times> trav" where
  "insertConstant c t =
     (let v = fresh_value t
      in (v, setType v IntType (insert_before (Node (fresh_node t) (prim_Constant c) [] [v] []) t)))"

text \<open>
  \<open>g->insertNode(g->create(k, 1))\<close>: a node of kind \<open>k\<close> without inputs and with one
  output of the default tensor type, put before the current node.
\<close>

definition insertNode_create :: "kind \<Rightarrow> trav \<Rightarrow> (nat \<times> vid) \<times> trav" where
  "insertNode_create k t =
     (let v = fresh_value t; i = fresh_node t
      in ((i, v), setType v (TensorType None) (insert_before (Node i k [] [v] []) t)))"

definition addInput_node :: "vid \<Rightarrow> node \<Rightarrow> node" where
  "addInput_node v m = Node (nid m) (kind m) (inputs m @ [v]) (outputs m) (blocks m)"

definition addInput :: "nat \<Rightarrow> vid \<Rightarrow> trav \<Rightarrow> trav" where
  "addInput i v t =
     t\<lparr>passed := map (\<lambda>m. if nid m = i then addInput_node v m else m) (passed t),
       pending := map (\<lambda>m. if nid m = i then addInput_node v m else m) (pending t)\<rparr>"

text \<open>\<open>g.createAutogradZero()->insertAfter(n)->output()\<close> for the current node \<open>n\<close>.\<close>

definition insertAutogradZero_after :: "trav \<Rightarrow> vid \<times> trav" where
  "insertAutogradZero_after t =
     (let v = fresh_value t
      in (v, setType v (TensorType None)
               (insert_after (Node (fresh_node t) prim_AutogradZero [] [v] []) t)))"

text \<open>
  \<open>block_node->moveBefore(n)\<close> for a node of the first block of the current node \<open>n\<close>:
  the node leaves the block and is put before \<open>n\<close>.
\<close>

definition moveBefore_current :: "node \<Rightarrow> trav \<Rightarrow> trav" where
  "moveBefore_current m t =
     (case pending t of
        [] \<Rightarrow> t
      | n # rest \<Rightarrow>
          (case blocks n of
             [] \<Rightarrow> t
           | body # bs \<Rightarrow>
               t\<lparr>passed := passed t @ [m],
                 pending := Node (nid n) (kind n) (inputs n) (outputs n)
                              (Block (remove1 m (bnodes body)) (boutputs body) # bs) # rest\<rparr>))"

text \<open>The \<open>++it\<close> of the loop when the current node stays.\<close>

definition advance :: "trav \<Rightarrow> trav" where
  "advance t = (case pending t of [] \<Rightarrow> t | n # rest \<Rightarrow> t\<lparr>passed := passed t @ [n], pending := rest\<rparr>)"

section \<open>The classification mapping\<close>

text \<open>
  \<open>std::unordered_map<Value*, State> state\<close>. Reading \<open>state[v]\<close> of a value without
  an entry inserts a value-initialised \<open>State\<close>, which is the enumerator 0, and yields it.
\<close>

type_synonym smap = "vid \<rightharpoonup> State"

definition State_default :: State where
  "State_default = Nonzero"

definition state_index :: "smap \<Rightarrow> vid \<Rightarrow> State \<times> smap" where
  "state_index st v =
     (case st v of None \<Rightarrow> (State_default, st(v \<mapsto> State_default)) | Some s \<Rightarrow> (s, st))"

definition state_at :: "smap \<Rightarrow> vid \<Rightarrow> State" where
  "state_at st v = fst (state_index st v)"

text \<open>\<open>std::all_of\<close> over \<open>state[v] == s\<close>: it stops at the first value that fails.\<close>

fun all_of_state :: "State \<Rightarrow> smap \<Rightarrow> vid list \<Rightarrow> bool \<times> smap" where
  "all_of_state s st [] = (True, st)"
| "all_of_state s st (v # vs) =
     (let (x, st1) = state_index st v
      in if x = s then all_of_state s st1 vs else (False, st1))"

subsection \<open>The initializer (lines 17 to 36)\<close>

definition init_input :: "(vid \<Rightarrow> jtype) \<Rightarrow> vid \<Rightarrow> smap \<Rightarrow> smap" where
  "init_input ty input st =
     (let tp = ty input
      in case cast_TensorType tp of
           Some undefined_flag \<Rightarrow>
             (case undefined_flag of
                Some u \<Rightarrow> if u then st(input \<mapsto> Zero) else st(input \<mapsto> Nonzero)
              | None \<Rightarrow> st(input \<mapsto> Unknown))
         | None \<Rightarrow>
             if isSubtypeOf_Tensor tp \<or> isSubtypeOf_ListOfTensors tp
             then st(input \<mapsto> Nonzero)
             else st(input \<mapsto> Unknown))"

definition init_state :: "graph \<Rightarrow> smap" where
  "init_state g = fold (init_input (vtype g)) (ginputs g) Map.empty"

section \<open>The traversal (lines 38 to 157)\<close>

text \<open>
  A visit of the current node yields an exception, or the graph after each mutation it
  performed (a record of the run, in order; empty when the node is left alone), the
  graph with the iterator moved on, and the classification mapping.
\<close>

type_synonym outcome = "error + (trav list \<times> trav \<times> smap)"

definition mark_outputs :: "State \<Rightarrow> vid list \<Rightarrow> smap \<Rightarrow> smap" where
  "mark_outputs s vs st = fold (\<lambda>v m. m(v \<mapsto> s)) vs st"

definition state_of_flag :: "bool option \<Rightarrow> State" where
  "state_of_flag u = (case u of Some d \<Rightarrow> if d then Zero else Nonzero | None \<Rightarrow> Unknown)"

text \<open>
  Lines 42 to 75. The third test reads \<open>state[a]\<close> and \<open>state[b]\<close> again; both have an
  entry by then, so the reads insert nothing (lemma \<open>state_index_again\<close> below).
\<close>

definition visit_AutogradAdd :: "node \<Rightarrow> trav \<Rightarrow> smap \<Rightarrow> outcome" where
  "visit_AutogradAdd n t st =
     ebind (input_at n 0) (\<lambda>a.
     ebind (input_at n 1) (\<lambda>b.
       let (sa, st1) = state_index st a
       in if sa = Zero then
            ebind (output_of n) (\<lambda>out.
              let t1 = replaceAllUsesWith out b t
              in ebind (destroyCurrent t1) (\<lambda>t2. Inr ([t1, t2], t2, st1)))
          else
            let (sb, st2) = state_index st1 b
            in if sb = Zero then
                 ebind (output_of n) (\<lambda>out.
                   let t1 = replaceAllUsesWith out a t
                   in ebind (destroyCurrent t1) (\<lambda>t2. Inr ([t1, t2], t2, st2)))
               else if state_at st2 a = Nonzero \<and> state_at st2 b = Nonzero then
                 (let (cOne, t1) = insertConstant 1 t;
                      ((add_node, add_output), t2) = insertNode_create aten_add t1;
                      t3 = addInput add_node a t2;
                      t4 = addInput add_node b t3;
                      t5 = addInput add_node cOne t4
                  in ebind (output_of n) (\<lambda>out.
                       let t6 = setType add_output (t_type t5 out) t5;
                           st3 = st2(add_output \<mapsto> Nonzero);
                           t7 = replaceAllUsesWith out add_output t6
                       in ebind (destroyCurrent t7) (\<lambda>t8.
                            Inr ([t1, t2, t3, t4, t5, t6, t7, t8], t8, st3))))
               else
                 ebind (output_of n) (\<lambda>out. Inr ([], advance t, st2(out \<mapsto> Unknown)))))"

definition visit_AutogradZero :: "node \<Rightarrow> trav \<Rightarrow> smap \<Rightarrow> outcome" where
  "visit_AutogradZero n t st =
     ebind (output_of n) (\<lambda>out. Inr ([], advance t, st(out \<mapsto> Zero)))"

definition visit_profile :: "node \<Rightarrow> trav \<Rightarrow> smap \<Rightarrow> outcome" where
  "visit_profile n t st =
     (if length (inputs n) > 0
      then ebind (output_of n) (\<lambda>out. Inr ([], advance t, st(out \<mapsto> Unknown)))
      else Inr ([], advance t, st))"

definition visit_guard :: "node \<Rightarrow> trav \<Rightarrow> smap \<Rightarrow> outcome" where
  "visit_guard n t st =
     ebind (output_of n) (\<lambda>out.
     ebind (expect_TensorType (t_type t out)) (\<lambda>u.
       Inr ([], advance t, st(out \<mapsto> state_of_flag u))))"

fun replace_each :: "vid list \<Rightarrow> vid \<Rightarrow> trav \<Rightarrow> trav list \<times> trav" where
  "replace_each [] w t = ([], t)"
| "replace_each (v # vs) w t =
     (let t1 = replaceAllUsesWith v w t; (log, t2) = replace_each vs w t1
      in (t1 # log, t2))"

fun hoist_nodes :: "node list \<Rightarrow> trav \<Rightarrow> trav list \<times> trav" where
  "hoist_nodes [] t = ([], t)"
| "hoist_nodes (m # ms) t =
     (let t1 = moveBefore_current m t; (log, t2) = hoist_nodes ms t1
      in (t1 # log, t2))"

fun inline_outputs :: "nat list \<Rightarrow> trav \<Rightarrow> smap \<Rightarrow> outcome" where
  "inline_outputs [] t st = Inr ([], t, st)"
| "inline_outputs (i # js) t st =
     (case pending t of
        [] \<Rightarrow> Inl assert_failed
      | n # rest \<Rightarrow>
          (case blocks n of
             [] \<Rightarrow> Inl out_of_range
           | body # bs \<Rightarrow>
               if i < length (outputs n) \<and> i < length (boutputs body) then
                 (let t1 = replaceAllUsesWith (outputs n ! i) (boutputs body ! i) t
                  in ebind (inline_outputs js t1 (st(boutputs body ! i \<mapsto> Nonzero)))
                       (\<lambda>(log, t2, st2). Inr (t1 # log, t2, st2)))
               else Inl out_of_range))"

definition visit_If :: "node \<Rightarrow> trav \<Rightarrow> smap \<Rightarrow> outcome" where
  "visit_If n t st =
     ebind (input_at n 0) (\<lambda>c.
       let if_input = node_of t c
       in if kind if_input = prim_AutogradAnyNonZero then
            (let (all_zeros, st1) = all_of_state Zero st (inputs if_input);
                 (all_nonzeros, st2) = all_of_state Nonzero st1 (inputs if_input)
             in if all_zeros then
                  (let (zero, t1) = insertAutogradZero_after t;
                       st3 = st2(zero \<mapsto> Zero);
                       (log, t2) = replace_each (outputs n) zero t1
                   in ebind (destroyCurrent t2) (\<lambda>t3. Inr (t1 # log @ [t3], t3, st3)))
                else if all_nonzeros then
                  (case blocks n of
                     [] \<Rightarrow> Inl out_of_range
                   | body # bs \<Rightarrow>
                       (let (log1, t1) = hoist_nodes (bnodes body) t
                        in ebind (inline_outputs [0..<length (outputs n)] t1 st2)
                             (\<lambda>(log2, t2, st3).
                                ebind (destroyCurrent t2) (\<lambda>t3.
                                  Inr (log1 @ log2 @ [t3], t3, st3)))))
                else Inr ([], advance t, mark_outputs Unknown (outputs n) st2))
          else Inr ([], advance t, mark_outputs Unknown (outputs n) st))"

definition visit :: "trav \<Rightarrow> smap \<Rightarrow> outcome" where
  "visit t st =
     (case pending t of
        [] \<Rightarrow> Inr ([], t, st)
      | n # rest \<Rightarrow>
          (case kind n of
             prim_AutogradAdd \<Rightarrow> visit_AutogradAdd n t st
           | prim_AutogradZero \<Rightarrow> visit_AutogradZero n t st
           | prim_profile \<Rightarrow> visit_profile n t st
           | prim_BailOut \<Rightarrow> visit_guard n t st
           | prim_Guard \<Rightarrow> visit_guard n t st
           | prim_If \<Rightarrow> visit_If n t st
           | _ \<Rightarrow> Inr ([], advance t, mark_outputs Unknown (outputs n) st)))"

lemma state_index_again:
  "state_index (snd (state_index st v)) v = (fst (state_index st v), snd (state_index st v))"
  by (simp add: state_index_def split: option.splits)

lemma state_at_state_index [simp]: "state_at (snd (state_index st v)) w = state_at st w"
  by (simp add: state_at_def state_index_def split: option.splits)

subsection \<open>The traversal ends\<close>

text \<open>
  A visit removes the current node from the pending ones, or replaces a conditional by
  one zero producer: conditionals count twice.
\<close>

definition weight :: "node list \<Rightarrow> nat" where
  "weight ns = sum_list (map (\<lambda>n. if kind n = prim_If then 2 else 1) ns)"

lemma kind_rauw [simp]: "kind (rauw_node v w n) = kind n"
  by (cases n) simp

lemma weight_rauw [simp]: "weight (map (rauw_node v w) ns) = weight ns"
  by (simp add: weight_def comp_def)

lemma kind_addInput_node [simp]: "kind (addInput_node v n) = kind n"
  by (simp add: addInput_node_def)

lemma weight_addInput [simp]:
  "weight (map (\<lambda>m. if nid m = i then addInput_node v m else m) ns) = weight ns"
  by (induction ns) (simp_all add: weight_def)

lemma weight_map:
  "(\<And>x. kind (f x) = kind x) \<Longrightarrow> weight (map f xs) = weight xs"
  by (simp add: weight_def comp_def)

lemma kind_addInput_if [simp]:
  "kind (if nid m = i then addInput_node v m else m) = kind m"
  by simp

lemma weight_Cons: "weight (n # ns) = (if kind n = prim_If then 2 else 1) + weight ns"
  by (simp add: weight_def)

lemma weight_Nil [simp]: "weight [] = 0"
  by (simp add: weight_def)

lemma destroyCurrent_pending:
  "destroyCurrent t = Inr t' \<Longrightarrow> \<exists>n. pending t = n # pending t'"
  by (auto simp: destroyCurrent_def split: list.splits if_splits)

lemma replace_each_snd_Cons:
  "snd (replace_each (v # vs) w t) = snd (replace_each vs w (replaceAllUsesWith v w t))"
  by (simp add: Let_def split: prod.splits)

lemma replace_each_fst_Cons:
  "fst (replace_each (v # vs) w t) =
     replaceAllUsesWith v w t # fst (replace_each vs w (replaceAllUsesWith v w t))"
  by (simp add: Let_def split: prod.splits)

lemma replace_each_pending:
  "weight (pending (snd (replace_each vs w t))) = weight (pending t)"
proof (induction vs arbitrary: t)
  case Nil
  show ?case by simp
next
  case (Cons v vs)
  show ?case
    unfolding replace_each_snd_Cons Cons.IH by (simp add: replaceAllUsesWith_def)
qed

lemma moveBefore_weight:
  "pending t \<noteq> [] \<Longrightarrow> weight (pending (moveBefore_current m t)) = weight (pending t)
     \<and> pending (moveBefore_current m t) \<noteq> []"
  by (auto simp: moveBefore_current_def weight_Cons split: list.splits)

lemma hoist_snd_Cons:
  "snd (hoist_nodes (m # ms) t) = snd (hoist_nodes ms (moveBefore_current m t))"
  by (simp add: Let_def split: prod.splits)

lemma hoist_fst_Cons:
  "fst (hoist_nodes (m # ms) t) =
     moveBefore_current m t # fst (hoist_nodes ms (moveBefore_current m t))"
  by (simp add: Let_def split: prod.splits)

lemma hoist_weight:
  "pending t \<noteq> [] \<Longrightarrow> weight (pending (snd (hoist_nodes ms t))) = weight (pending t)"
proof (induction ms arbitrary: t)
  case Nil
  show ?case by simp
next
  case (Cons m ms)
  show ?case
    unfolding hoist_snd_Cons using Cons.IH [of "moveBefore_current m t"] moveBefore_weight [OF Cons.prems, of m]
    by simp
qed

lemma inline_outputs_Cons_Inr:
  assumes "inline_outputs (i # js) t st = Inr (log, t', st')"
  shows "\<exists>n rest body bs log'.
           pending t = n # rest \<and> blocks n = body # bs \<and>
           i < length (outputs n) \<and> i < length (boutputs body) \<and>
           inline_outputs js (replaceAllUsesWith (outputs n ! i) (boutputs body ! i) t)
             (st(boutputs body ! i \<mapsto> Nonzero)) = Inr (log', t', st') \<and>
           log = replaceAllUsesWith (outputs n ! i) (boutputs body ! i) t # log'"
  using assms
  by (auto simp: ebind_def Let_def split: list.splits if_splits sum.splits prod.splits)

lemma inline_weight:
  "inline_outputs js t st = Inr (log, t', st') \<Longrightarrow> weight (pending t') = weight (pending t)"
proof (induction js arbitrary: t st log)
  case Nil
  then show ?case by simp
next
  case (Cons i js)
  from inline_outputs_Cons_Inr [OF Cons.prems] obtain v w log' st1 where
    "inline_outputs js (replaceAllUsesWith v w t) st1 = Inr (log', t', st')"
    by blast
  from Cons.IH [OF this] show ?case
    by (simp add: replaceAllUsesWith_def)
qed

lemma advance_weight:
  "pending t = n # rest \<Longrightarrow> weight (pending (advance t)) < weight (pending t)"
  by (simp add: advance_def weight_Cons)

lemma pending_replaceAllUsesWith [simp]:
  "pending (replaceAllUsesWith v w t) = map (rauw_node v w) (pending t)"
  by (simp add: replaceAllUsesWith_def)

lemma pending_setType [simp]: "pending (setType v tp t) = pending t"
  by (simp add: setType_def)

lemma pending_insert_before [simp]: "pending (insert_before m t) = pending t"
  by (simp add: insert_before_def)

lemma pending_insertConstant [simp]: "pending (snd (insertConstant c t)) = pending t"
  by (simp add: insertConstant_def Let_def)

lemma pending_insertNode_create [simp]: "pending (snd (insertNode_create k t)) = pending t"
  by (simp add: insertNode_create_def Let_def)

lemma pending_addInput [simp]:
  "pending (addInput i v t) = map (\<lambda>m. if nid m = i then addInput_node v m else m) (pending t)"
  by (simp add: addInput_def)

lemma pending_insertAutogradZero_after:
  "pending t = n # rest \<Longrightarrow>
   pending (snd (insertAutogradZero_after t)) =
     n # Node (fresh_node t) prim_AutogradZero [] [fresh_value t] [] # rest"
  by (simp add: insertAutogradZero_after_def insert_after_def setType_def Let_def)

lemma visit_AutogradAdd_weight:
  assumes "visit_AutogradAdd n t st = Inr (log, t', st')" and "pending t = n # rest"
  shows "weight (pending t') < weight (pending t)"
proof -
  have adv: "weight (pending (advance t)) < weight (pending t)"
    using advance_weight [OF assms(2)] .
  have destroy: "\<And>u. destroyCurrent u = Inr t' \<Longrightarrow> weight (pending u) = weight (pending t)
      \<Longrightarrow> weight (pending t') < weight (pending t)"
    by (auto dest!: destroyCurrent_pending simp: weight_Cons split: if_splits)
  show ?thesis
    using assms(1) adv
    by (auto simp: visit_AutogradAdd_def ebind_def Let_def insertConstant_def
        insertNode_create_def weight_map
        split: sum.splits if_splits prod.splits intro!: destroy)
qed

lemma replace_each_kinds:
  "map kind (pending (snd (replace_each vs w t))) = map kind (pending t)"
proof (induction vs arbitrary: t)
  case Nil
  show ?case by simp
next
  case (Cons v vs)
  show ?case
    unfolding replace_each_snd_Cons Cons.IH by simp
qed

lemma weight_kinds: "map kind xs = map kind ys \<Longrightarrow> weight xs = weight ys"
proof -
  assume "map kind xs = map kind ys"
  then have "map (\<lambda>k. if k = prim_If then 2 else (1::nat)) (map kind xs)
    = map (\<lambda>k. if k = prim_If then 2 else 1) (map kind ys)"
    by simp
  then show ?thesis
    by (simp add: weight_def comp_def)
qed

lemma visit_If_weight:
  assumes "visit_If n t st = Inr (log, t', st')" and "pending t = n # rest"
    and "kind n = prim_If"
  shows "weight (pending t') < weight (pending t)"
proof -
  have adv: "weight (pending (advance t)) < weight (pending t)"
    using advance_weight [OF assms(2)] .
  have destroy: "\<And>u. destroyCurrent u = Inr t' \<Longrightarrow> weight (pending u) = weight (pending t)
      \<Longrightarrow> weight (pending t') < weight (pending t)"
    by (auto dest!: destroyCurrent_pending simp: weight_Cons split: if_splits)
  from assms(1) obtain c where c: "input_at n 0 = Inr c"
    by (auto simp: visit_If_def ebind_def split: sum.splits)
  define fi where "fi = node_of t c"
  show ?thesis
  proof (cases "kind fi = prim_AutogradAnyNonZero")
    case False
    then have "t' = advance t"
      using assms(1) c by (simp add: visit_If_def ebind_def fi_def)
    then show ?thesis using adv by simp
  next
    case True
    obtain az st1 where az: "all_of_state Zero st (inputs fi) = (az, st1)" by force
    obtain an st2 where an: "all_of_state Nonzero st1 (inputs fi) = (an, st2)" by force
    show ?thesis
    proof (cases az)
      case True
      define t1 where "t1 = snd (insertAutogradZero_after t)"
      define t2 where "t2 = snd (replace_each (outputs n) (fst (insertAutogradZero_after t)) t1)"
      have d: "destroyCurrent t2 = Inr t'"
        using assms(1) c \<open>kind fi = prim_AutogradAnyNonZero\<close> az an True
        by (auto simp: visit_If_def ebind_def fi_def [symmetric] t1_def t2_def Let_def
            split: prod.splits sum.splits)
      have "map kind (pending t2) = kind n # prim_AutogradZero # map kind rest"
        unfolding t2_def replace_each_kinds t1_def
        by (simp add: pending_insertAutogradZero_after [OF assms(2)])
      moreover obtain m where "pending t2 = m # pending t'"
        using destroyCurrent_pending [OF d] by blast
      ultimately
      have "map kind (pending t') = map kind (Node 0 prim_AutogradZero [] [] [] # rest)"
        by simp
      from weight_kinds [OF this] show ?thesis
        by (simp add: assms(2,3) weight_Cons)
    next
      case False
      note naz = this
      show ?thesis
      proof (cases an)
        case False
        then have "t' = advance t"
          using assms(1) c \<open>kind fi = prim_AutogradAnyNonZero\<close> az an naz
          by (simp add: visit_If_def ebind_def fi_def [symmetric])
        then show ?thesis using adv by simp
      next
        case True
        from assms(1) c \<open>kind fi = prim_AutogradAnyNonZero\<close> az an naz True
        obtain body bs log2 t2 where b: "blocks n = body # bs"
          and i: "inline_outputs [0..<length (outputs n)] (snd (hoist_nodes (bnodes body) t)) st2
                   = Inr (log2, t2, st')"
          and d: "destroyCurrent t2 = Inr t'"
          by (auto simp: visit_If_def ebind_def fi_def [symmetric] Let_def
              split: prod.splits sum.splits list.splits)
        have "weight (pending t2) = weight (pending t)"
          using inline_weight [OF i] hoist_weight [of t "bnodes body"] assms(2) by simp
        then show ?thesis using destroy [OF d] by simp
      qed
    qed
  qed
qed

lemma visit_weight:
  assumes "visit t st = Inr (log, t', st')" and "pending t \<noteq> []"
  shows "weight (pending t') < weight (pending t)"
proof -
  obtain n rest where p: "pending t = n # rest"
    using assms(2) by (cases "pending t") auto
  have adv: "weight (pending (advance t)) < weight (pending t)"
    using advance_weight [OF p] .
  show ?thesis
  proof (cases "kind n")
    case prim_AutogradAdd
    then have v: "visit_AutogradAdd n t st = Inr (log, t', st')"
      using assms(1) p by (simp add: visit_def)
    show ?thesis using visit_AutogradAdd_weight [OF v p] .
  next
    case prim_If
    then have v: "visit_If n t st = Inr (log, t', st')"
      using assms(1) p by (simp add: visit_def)
    show ?thesis using visit_If_weight [OF v p prim_If] .
  qed (use assms(1) p adv in \<open>auto simp: visit_def visit_AutogradZero_def visit_profile_def
        visit_guard_def ebind_def split: sum.splits if_splits\<close>)
qed

text \<open>The loop of line 38, and the pass.\<close>

function loop :: "trav \<Rightarrow> smap \<Rightarrow> outcome" where
  "loop t st =
     (if pending t = [] then Inr ([], t, st)
      else case visit t st of
             Inl e \<Rightarrow> Inl e
           | Inr (log, t1, st1) \<Rightarrow>
               (case loop t1 st1 of
                  Inl e \<Rightarrow> Inl e
                | Inr (log1, t2, st2) \<Rightarrow> Inr (log @ log1, t2, st2)))"
  by pat_completeness auto
termination
  by (relation "measure (\<lambda>(t, st). weight (pending t))") (auto simp: visit_weight)

declare loop.simps [simp del]

definition specializeAutogradZero :: "graph \<Rightarrow> error + (graph list \<times> graph)" where
  "specializeAutogradZero g =
     (case loop (begin_trav g) (init_state g) of
        Inl e \<Rightarrow> Inl e
      | Inr (log, t, st) \<Rightarrow> Inr (map graph_of log, graph_of t))"


section \<open>The initializer\<close>

lemma init_input_other [simp]: "v \<noteq> w \<Longrightarrow> init_input ty w st v = st v"
  by (simp add: init_input_def Let_def split: option.splits)

lemma init_input_same:
  "init_input ty v st v =
     Some (if ty v = TensorType (Some True) then Zero
           else if ty v = TensorType (Some False) then Nonzero
           else if ty v = TensorSubtype \<or> ty v = ListOfTensors then Nonzero
           else Unknown)"
  by (cases "ty v")
    (auto simp: init_input_def Let_def cast_TensorType_def isSubtypeOf_Tensor_def
      isSubtypeOf_ListOfTensors_def split: option.splits)

lemma fold_init_input_notin:
  "v \<notin> set vs \<Longrightarrow> fold (init_input ty) vs st v = st v"
  by (induction vs arbitrary: st) auto

lemma fold_init_input_in:
  "v \<in> set vs \<Longrightarrow>
   fold (init_input ty) vs st v =
     Some (if ty v = TensorType (Some True) then Zero
           else if ty v = TensorType (Some False) then Nonzero
           else if ty v = TensorSubtype \<or> ty v = ListOfTensors then Nonzero
           else Unknown)"
proof (induction vs arbitrary: st)
  case Nil
  then show ?case by simp
next
  case (Cons a vs)
  show ?case
  proof (cases "v \<in> set vs")
    case True
    then show ?thesis using Cons.IH by simp
  next
    case False
    then have "a = v" using Cons.prems by simp
    then show ?thesis using False
      by (simp add: fold_init_input_notin init_input_same)
  qed
qed

text \<open>
  Claim C2, as amended. Every graph input is classified from its type annotation: a
  \<open>TensorType\<close> whose flag is known true is \<open>Zero\<close>, known false is \<open>Nonzero\<close>; a
  \<open>TensorType\<close> whose flag is unknown is \<open>Unknown\<close>; a type that is no \<open>TensorType\<close> object
  but a subtype of the tensor type, or a list of tensors, is \<open>Nonzero\<close>; every other type
  is \<open>Unknown\<close>. The initializer only builds the mapping: the traversal starts on the
  graph as it was given.
\<close>

theorem initializer_classifies_inputs:
  assumes "v \<in> set (ginputs g)"
  shows "init_state g v =
           Some (if vtype g v = TensorType (Some True) then Zero
                 else if vtype g v = TensorType (Some False) then Nonzero
                 else if vtype g v = TensorSubtype \<or> vtype g v = ListOfTensors then Nonzero
                 else Unknown)
         \<and> graph_of (begin_trav g) = g"
  using assms by (simp add: init_state_def fold_init_input_in graph_of_def begin_trav_def)

definition graph_unknown_flag :: graph where
  "graph_unknown_flag =
     \<lparr>ginputs = [1], gnodes = [], goutputs = [1], vtype = (\<lambda>v. TensorType None)\<rparr>"

theorem initializer_classifies_inputs_witness:
  "init_state graph_unknown_flag 1 = Some Unknown \<and> graph_of (begin_trav graph_unknown_flag) = graph_unknown_flag"
  using initializer_classifies_inputs [of 1 graph_unknown_flag]
  by (simp add: graph_unknown_flag_def)

text \<open>
  Claim C2 as stated fails: an input whose type is a tensor type with the flag unknown
  is classified \<open>Unknown\<close> (line 27), not \<open>Nonzero\<close>.
\<close>

theorem initializer_unknown_flag_counterexample:
  "cast_TensorType (vtype graph_unknown_flag 1) = Some None \<and>
   isSubtypeOf_Tensor (vtype graph_unknown_flag 1) \<and>
   init_state graph_unknown_flag 1 \<noteq> Some Nonzero"
  by (simp add: graph_unknown_flag_def init_state_def init_input_def cast_TensorType_def
      isSubtypeOf_Tensor_def)


section \<open>Reading the classification of a value without an entry\<close>


lemma loop_step:
  "pending t \<noteq> [] \<Longrightarrow> visit t st = Inr (log, t1, st1) \<Longrightarrow>
   loop t st =
     (case loop t1 st1 of Inl e \<Rightarrow> Inl e | Inr (log1, t2, st2) \<Rightarrow> Inr (log @ log1, t2, st2))"
  by (subst loop.simps) simp

text \<open>
  A graph with one input that is known to be defined, a \<open>prim::profile\<close> node without
  inputs whose output is value 2, and the guarded addition of value 2 and the input.
\<close>

definition graph_unclassified_operand :: graph where
  "graph_unclassified_operand =
     \<lparr>ginputs = [1],
      gnodes = [Node 10 prim_profile [] [2] [], Node 11 prim_AutogradAdd [2, 1] [3] []],
      goutputs = [3],
      vtype = (\<lambda>v. TensorType (Some False))\<rparr>"

text \<open>
  Claim C1 on the code. The visit of the profile node writes no entry for its output
  (line 83), so value 2 has no entry when the addition reads it. The read yields
  \<open>Nonzero\<close>, not \<open>Unknown\<close>, and the pass rewrites the guarded addition into an
  ordinary \<open>aten::add\<close>: the rewrite for two \<open>Nonzero\<close> operands.
\<close>

theorem unclassified_operand_reads_Nonzero:
  "visit (begin_trav graph_unclassified_operand) (init_state graph_unclassified_operand)
     = Inr ([], advance (begin_trav graph_unclassified_operand),
            init_state graph_unclassified_operand)
   \<and> init_state graph_unclassified_operand 2 = None
   \<and> fst (state_index (init_state graph_unclassified_operand) 2) = Nonzero
   \<and> map_sum id (\<lambda>(log, g). (gnodes g, goutputs g))
         (specializeAutogradZero graph_unclassified_operand)
       = Inr ([Node 10 prim_profile [] [2] [],
               Node 12 (prim_Constant 1) [] [4] [],
               Node 13 aten_add [2, 1, 4] [5] []], [5])"
proof -
  have "visit (begin_trav graph_unclassified_operand) (init_state graph_unclassified_operand)
     = Inr ([], advance (begin_trav graph_unclassified_operand),
            init_state graph_unclassified_operand)"
    by (simp add: visit_def visit_profile_def graph_unclassified_operand_def begin_trav_def)
  moreover have "init_state graph_unclassified_operand 2 = None"
    by code_simp
  moreover have "fst (state_index (init_state graph_unclassified_operand) 2) = Nonzero"
    by code_simp
  moreover have "map_sum id (\<lambda>(log, g). (gnodes g, goutputs g))
         (specializeAutogradZero graph_unclassified_operand)
       = Inr ([Node 10 prim_profile [] [2] [],
               Node 12 (prim_Constant 1) [] [4] [],
               Node 13 aten_add [2, 1, 4] [5] []], [5])"
    by code_simp
  ultimately show ?thesis by blast
qed

section \<open>Facts about the graph primitives\<close>

lemma uses_rauw:
  "uses_node (rauw_node v w n) = map (subst v w) (uses_node n)"
  "uses_block (rauw_block v w b) = map (subst v w) (uses_block b)"
  by (induction n and b) (simp_all add: map_concat comp_def cong: map_cong)

lemma defs_rauw [simp]:
  "defs_node (rauw_node v w n) = defs_node n"
  "defs_block (rauw_block v w b) = defs_block b"
  by (induction n and b) (simp_all add: comp_def cong: map_cong)

lemma ids_rauw [simp]:
  "ids_node (rauw_node v w n) = ids_node n"
  "ids_block (rauw_block v w b) = ids_block b"
  by (induction n and b) (simp_all add: comp_def cong: map_cong)

lemma outputs_rauw [simp]: "outputs (rauw_node v w n) = outputs n"
  by (cases n) simp

lemma nid_rauw [simp]: "nid (rauw_node v w n) = nid n"
  by (cases n) simp

lemma map_subst_unused: "v \<notin> set xs \<Longrightarrow> map (subst v w) xs = xs"
  by (induction xs) (auto simp: subst_def)

lemma rauw_unused:
  "v \<notin> set (uses_node n) \<Longrightarrow> rauw_node v w n = n"
  "v \<notin> set (uses_block b) \<Longrightarrow> rauw_block v w b = b"
  by (induction n and b) (simp_all add: map_subst_unused map_idI)

lemma subst_removes: "v \<noteq> w \<Longrightarrow> v \<notin> set (map (subst v w) xs)"
  by (auto simp: subst_def)

lemma uses_replaceAllUsesWith:
  "uses (replaceAllUsesWith v w t) = map (subst v w) (uses t)"
  by (simp add: uses_def replaceAllUsesWith_def map_concat comp_def uses_rauw)

lemma defs_replaceAllUsesWith [simp]: "defs (replaceAllUsesWith v w t) = defs t"
  by (simp add: defs_def replaceAllUsesWith_def comp_def)

lemma node_ids_replaceAllUsesWith [simp]: "node_ids (replaceAllUsesWith v w t) = node_ids t"
  by (simp add: node_ids_def replaceAllUsesWith_def comp_def)

lemma fold_max_ge: "(a::nat) \<le> fold max xs a"
  by (induction xs arbitrary: a) (auto intro: order_trans [OF max.cobounded2])

lemma fold_max_mem: "x \<in> set xs \<Longrightarrow> (x::nat) \<le> fold max xs a"
proof (induction xs arbitrary: a)
  case Nil
  then show ?case by simp
next
  case (Cons y ys)
  then show ?case
    using fold_max_ge [of "max y a" ys] by auto
qed

lemma fresh_value_new:
  "fresh_value t \<notin> set (t_inputs t)" "fresh_value t \<notin> set (uses t)" "fresh_value t \<notin> set (defs t)"
  using fold_max_mem [of "fresh_value t" "t_inputs t @ uses t @ defs t" 0]
  by (auto simp: fresh_value_def)

lemma fresh_node_new: "fresh_node t \<notin> set (node_ids t)"
  using fold_max_mem [of "fresh_node t" "node_ids t" 0]
  by (auto simp: fresh_node_def)

lemma fst_state_index [simp]: "fst (state_index st v) = state_at st v"
  by (simp add: state_at_def)

lemma state_at_upd [simp]: "state_at (st(v \<mapsto> s)) w = (if w = v then s else state_at st w)"
  by (simp add: state_at_def state_index_def split: option.splits)

lemma all_of_state_fst:
  "fst (all_of_state s st vs) = list_all (\<lambda>v. state_at st v = s) vs"
proof (induction vs arbitrary: st)
  case Nil
  show ?case by simp
next
  case (Cons v vs)
  show ?case
    using Cons.IH [of "snd (state_index st v)"] by (simp add: case_prod_beta)
qed

lemma all_of_state_snd [simp]:
  "state_at (snd (all_of_state s st vs)) w = state_at st w"
proof (induction vs arbitrary: st)
  case Nil
  show ?case by simp
next
  case (Cons v vs)
  show ?case
    using Cons.IH [of "snd (state_index st v)"] by (simp add: case_prod_beta)
qed

lemma graph_of_advance [simp]: "graph_of (advance t) = graph_of t"
  by (simp add: graph_of_def advance_def split: list.splits)

lemma mark_outputs_at:
  "state_at (mark_outputs s vs st) w = (if w \<in> set vs then s else state_at st w)"
  unfolding mark_outputs_def
  by (induction vs arbitrary: st) auto

text \<open>
  Claim C5. A guarded addition whose operands are neither both \<open>Nonzero\<close> nor either
  \<open>Zero\<close> is left alone: the visit performs no mutation, the graph after the visit is
  the graph before it, and the output of the node is classified \<open>Unknown\<close>.
\<close>

theorem mixed_add_is_left_alone:
  assumes "pending t = n # rest" and "kind n = prim_AutogradAdd"
    and "input_at n 0 = Inr a" and "input_at n 1 = Inr b" and "output_of n = Inr out"
    and "state_at st a \<noteq> Zero" and "state_at st b \<noteq> Zero"
    and "\<not> (state_at st a = Nonzero \<and> state_at st b = Nonzero)"
  shows "visit t st =
           Inr ([], advance t, (snd (state_index (snd (state_index st a)) b))(out \<mapsto> Unknown))
         \<and> graph_of (advance t) = graph_of t
         \<and> state_at ((snd (state_index (snd (state_index st a)) b))(out \<mapsto> Unknown)) out = Unknown"
proof -
  have "visit t st = visit_AutogradAdd n t st"
    using assms(1,2) by (simp add: visit_def)
  moreover have "visit_AutogradAdd n t st =
      Inr ([], advance t, (snd (state_index (snd (state_index st a)) b))(out \<mapsto> Unknown))"
    using assms(3-8)
    by (auto simp: visit_AutogradAdd_def ebind_def Let_def case_prod_beta)
  ultimately show ?thesis by simp
qed

text \<open>
  Claim C10. A conditional whose condition is not produced by an any-nonzero test is left
  alone: the visit performs no mutation, the graph is unchanged, and every output of the
  conditional is classified \<open>Unknown\<close>.
\<close>

theorem plain_conditional_is_left_alone:
  assumes "pending t = n # rest" and "kind n = prim_If"
    and "input_at n 0 = Inr c" and "kind (node_of t c) \<noteq> prim_AutogradAnyNonZero"
  shows "visit t st = Inr ([], advance t, mark_outputs Unknown (outputs n) st)
         \<and> graph_of (advance t) = graph_of t
         \<and> list_all (\<lambda>v. state_at (mark_outputs Unknown (outputs n) st) v = Unknown) (outputs n)"
proof -
  have "visit t st = visit_If n t st"
    using assms(1,2) by (simp add: visit_def)
  moreover have "visit_If n t st = Inr ([], advance t, mark_outputs Unknown (outputs n) st)"
    using assms(3,4) by (simp add: visit_If_def ebind_def)
  ultimately show ?thesis
    by (simp add: mark_outputs_at list_all_iff)
qed

lemma destroyCurrent_ok:
  "pending t = n # rest \<Longrightarrow> set (outputs n) \<inter> set (uses t) = {} \<Longrightarrow>
   destroyCurrent t = Inr (t\<lparr>pending := rest\<rparr>)"
  by (auto simp: destroyCurrent_def list_ex_iff)

lemma output_of_outputs: "output_of n = Inr out \<Longrightarrow> outputs n = [out]"
  by (auto simp: output_of_def split: list.splits)

lemma passed_replaceAllUsesWith [simp]:
  "passed (replaceAllUsesWith v w t) = map (rauw_node v w) (passed t)"
  by (simp add: replaceAllUsesWith_def)

lemma t_outputs_replaceAllUsesWith [simp]:
  "t_outputs (replaceAllUsesWith v w t) = map (subst v w) (t_outputs t)"
  by (simp add: replaceAllUsesWith_def)

lemma t_inputs_replaceAllUsesWith [simp]: "t_inputs (replaceAllUsesWith v w t) = t_inputs t"
  by (simp add: replaceAllUsesWith_def)

lemma t_type_replaceAllUsesWith [simp]: "t_type (replaceAllUsesWith v w t) = t_type t"
  by (simp add: replaceAllUsesWith_def)

lemma uses_pending_update:
  "set (uses (t\<lparr>pending := rest\<rparr>)) \<subseteq> set (uses (t\<lparr>pending := n # rest\<rparr>))"
  by (auto simp: uses_def)

lemma rauw_destroy:
  assumes "pending t = n # rest" and "outputs n = [out]" and "out \<noteq> w"
  shows "destroyCurrent (replaceAllUsesWith out w t) =
           Inr ((replaceAllUsesWith out w t)\<lparr>pending := map (rauw_node out w) rest\<rparr>)"
    and "out \<notin> set (uses ((replaceAllUsesWith out w t)\<lparr>pending := map (rauw_node out w) rest\<rparr>))"
proof -
  let ?u = "replaceAllUsesWith out w t"
  have p: "pending ?u = rauw_node out w n # map (rauw_node out w) rest"
    using assms(1) by simp
  have nu: "out \<notin> set (uses ?u)"
    using subst_removes [OF assms(3)] by (simp add: uses_replaceAllUsesWith)
  then show "destroyCurrent ?u = Inr ((?u)\<lparr>pending := map (rauw_node out w) rest\<rparr>)"
    using destroyCurrent_ok [OF p] assms(2) by simp
  have "(?u)\<lparr>pending := rauw_node out w n # map (rauw_node out w) rest\<rparr> = ?u"
    using p by (cases ?u) simp
  then show "out \<notin> set (uses ((?u)\<lparr>pending := map (rauw_node out w) rest\<rparr>))"
    using nu uses_pending_update [where t = ?u and rest = "map (rauw_node out w) rest" and n = "rauw_node out w n"] by auto
qed

lemma nid_in_ids: "nid m \<in> set (ids_node m)"
  by (cases m) simp

text \<open>
  The visit of a guarded addition with output \<open>out\<close> one of whose operands is classified
  \<open>Zero\<close>: all uses of \<open>out\<close> are replaced by the operand that is kept, the second one
  when the first is \<open>Zero\<close> and the first one otherwise, and the node is deleted.
\<close>

lemma visit_add_with_zero:
  assumes "pending t = n # rest" and "kind n = prim_AutogradAdd"
    and "input_at n 0 = Inr a" and "input_at n 1 = Inr b" and "output_of n = Inr out"
    and "state_at st a = Zero \<or> state_at st b = Zero"
    and "keep = (if state_at st a = Zero then b else a)"
    and "out \<noteq> keep"
    and "nid n \<notin> set (concat (map ids_node (passed t @ rest)))"
    and "t' = (replaceAllUsesWith out keep t)\<lparr>pending := map (rauw_node out keep) rest\<rparr>"
  shows "(\<exists>st'. visit t st = Inr ([replaceAllUsesWith out keep t, t'], t', st')
            \<and> (\<forall>v. state_at st' v = state_at st v))
         \<and> gnodes (graph_of t') = map (rauw_node out keep) (passed t @ rest)
         \<and> goutputs (graph_of t') = map (subst out keep) (t_outputs t)
         \<and> out \<notin> set (uses t')
         \<and> nid n \<notin> set (node_ids t')"
proof -
  have v: "visit t st = visit_AutogradAdd n t st"
    using assms(1,2) by (simp add: visit_def)
  have o: "outputs n = [out]"
    using assms(5) by (rule output_of_outputs)
  note d = rauw_destroy [OF assms(1) o assms(8), folded assms(10)]
  have run: "\<exists>st'. visit t st = Inr ([replaceAllUsesWith out keep t, t'], t', st')
           \<and> (\<forall>v. state_at st' v = state_at st v)"
  proof (cases "state_at st a = Zero")
    case True
    then have "visit t st = Inr ([replaceAllUsesWith out keep t, t'], t', snd (state_index st a))"
      using assms(3-5,7) d(1)
      by (simp add: v visit_AutogradAdd_def ebind_def Let_def case_prod_beta)
    then show ?thesis by simp
  next
    case False
    then have "state_at st b = Zero" using assms(6) by simp
    with False have "visit t st = Inr ([replaceAllUsesWith out keep t, t'], t',
        snd (state_index (snd (state_index st a)) b))"
      using assms(3-5,7) d(1)
      by (simp add: v visit_AutogradAdd_def ebind_def Let_def case_prod_beta)
    then show ?thesis by simp
  qed
  have nodes: "gnodes (graph_of t') = map (rauw_node out keep) (passed t @ rest)"
    by (simp add: assms(10) graph_of_def)
  have outs: "goutputs (graph_of t') = map (subst out keep) (t_outputs t)"
    by (simp add: assms(10) graph_of_def)
  have gone: "nid n \<notin> set (node_ids t')"
    using assms(9) by (simp add: assms(10) node_ids_def comp_def)
  show ?thesis
    using run nodes outs d(2) gone by blast
qed

lemma insertConstant_eq:
  "insertConstant k t =
     (fresh_value t,
      t\<lparr>passed := passed t @ [Node (fresh_node t) (prim_Constant k) [] [fresh_value t] []],
        t_type := (t_type t)(fresh_value t := IntType)\<rparr>)"
  by (simp add: insertConstant_def Let_def setType_def insert_before_def)

lemma insertNode_create_eq:
  "insertNode_create k t =
     ((fresh_node t, fresh_value t),
      t\<lparr>passed := passed t @ [Node (fresh_node t) k [] [fresh_value t] []],
        t_type := (t_type t)(fresh_value t := TensorType None)\<rparr>)"
  by (simp add: insertNode_create_def Let_def setType_def insert_before_def)

lemma addInput_other:
  "i \<notin> nid ` set ns \<Longrightarrow> map (\<lambda>m. if nid m = i then addInput_node v m else m) ns = ns"
  by (induction ns) auto

lemma top_ids_subset: "nid ` set (passed t @ pending t) \<subseteq> set (node_ids t)"
  using nid_in_ids by (auto simp: node_ids_def)

lemma fresh_node_not_top:
  "fresh_node t \<notin> nid ` set (passed t)" "fresh_node t \<notin> nid ` set (pending t)"
  using top_ids_subset [of t] fresh_node_new [of t] by auto

lemma outputs_in_defs: "set (outputs m) \<subseteq> set (defs_node m)"
  by (cases m) simp

lemma inputs_in_uses: "set (inputs m) \<subseteq> set (uses_node m)"
  by (cases m) simp

lemma pending_outputs_defs: "pending t = n # rest \<Longrightarrow> set (outputs n) \<subseteq> set (defs t)"
  using outputs_in_defs [of n] by (auto simp: defs_def)

text \<open>
  The visit of a guarded addition of two operands that are both classified \<open>Nonzero\<close>:
  a constant 1 and an \<open>aten::add\<close> of the two operands and that constant are put right
  before the node, the new output gets the type of the old one and is classified
  \<open>Nonzero\<close>, all uses of the old output are replaced by the new one and the node is
  deleted.
\<close>

lemma visit_add_of_nonzeros:
  assumes "pending t = n # rest" and "kind n = prim_AutogradAdd"
    and "input_at n 0 = Inr a" and "input_at n 1 = Inr b" and "output_of n = Inr out"
    and "state_at st a = Nonzero" and "state_at st b = Nonzero"
    and "a \<noteq> out" and "b \<noteq> out"
    and "nid n \<notin> set (concat (map ids_node (passed t @ rest)))"
    and "cOne = fresh_value t" and "t1 = snd (insertConstant 1 t)"
    and "add_output = fresh_value t1"
    and "new_nodes = [Node (fresh_node t) (prim_Constant 1) [] [cOne] [],
                      Node (fresh_node t1) aten_add [a, b, cOne] [add_output] []]"
    and "t' = \<lparr>t_inputs = t_inputs t,
               passed = map (rauw_node out add_output) (passed t) @ new_nodes,
               pending = map (rauw_node out add_output) rest,
               t_outputs = map (subst out add_output) (t_outputs t),
               t_type = (t_type t)(cOne := IntType, add_output := t_type t out)\<rparr>"
  shows "(\<exists>log st'. visit t st = Inr (log, t', st') \<and> length log = 8 \<and> last log = t'
            \<and> state_at st' add_output = Nonzero
            \<and> (\<forall>v. v \<noteq> add_output \<longrightarrow> state_at st' v = state_at st v))
         \<and> t_type t' add_output = t_type t out
         \<and> add_output \<notin> set (t_inputs t @ uses t @ defs t)
         \<and> out \<notin> set (uses t')
         \<and> nid n \<notin> set (node_ids t')"
proof -
  have v: "visit t st = visit_AutogradAdd n t st"
    using assms(1,2) by (simp add: visit_def)
  have o: "outputs n = [out]"
    using assms(5) by (rule output_of_outputs)
  have out_def: "out \<in> set (defs t)"
    using pending_outputs_defs [OF assms(1)] o by simp
  define i1 where "i1 = fresh_node t"
  define i2 where "i2 = fresh_node t1"
  define cnode where "cnode = Node i1 (prim_Constant 1) [] [cOne] []"
  have t1: "t1 = t\<lparr>passed := passed t @ [cnode], t_type := (t_type t)(cOne := IntType)\<rparr>"
    by (simp add: assms(11,12) insertConstant_eq cnode_def i1_def)
  have defs1: "set (defs t1) = insert cOne (set (defs t))"
    by (auto simp: t1 defs_def cnode_def)
  have uses1: "set (uses t1) = set (uses t)"
    by (auto simp: t1 uses_def cnode_def)
  have ids1: "set (node_ids t1) = insert i1 (set (node_ids t))"
    by (auto simp: t1 node_ids_def cnode_def)
  have c_new: "cOne \<notin> set (t_inputs t @ uses t @ defs t)"
    using fresh_value_new [of t] by (simp add: assms(11))
  have s_new: "add_output \<notin> set (t_inputs t @ uses t @ defs t)" "add_output \<noteq> cOne"
    using fresh_value_new [of t1] defs1 uses1 by (auto simp: assms(13) t1)
  have i2_new: "i2 \<notin> set (node_ids t)" "i2 \<noteq> i1"
    using fresh_node_new [of t1] ids1 by (auto simp: i2_def)
  have i2_top: "i2 \<notin> nid ` set (passed t)" "i2 \<notin> nid ` set (pending t)"
    using i2_new(1) top_ids_subset [of t] by auto
  have c_out: "cOne \<noteq> out" and s_out: "add_output \<noteq> out"
    using c_new s_new(1) out_def by auto
  define t5 where "t5 = t\<lparr>passed := passed t @ [cnode, Node i2 aten_add [a, b, cOne] [add_output] []],
      t_type := (t_type t)(cOne := IntType, add_output := TensorType None)\<rparr>"
  have ic: "insertConstant 1 t = (cOne, t1)"
    by (simp add: insertConstant_eq t1 assms(11) cnode_def i1_def)
  have inn: "insertNode_create aten_add t1 = ((i2, add_output),
      t\<lparr>passed := passed t @ [cnode, Node i2 aten_add [] [add_output] []],
        t_type := (t_type t)(cOne := IntType, add_output := TensorType None)\<rparr>)"
    by (simp add: insertNode_create_eq i2_def assms(13)) (simp add: t1)
  have a5: "addInput i2 cOne (addInput i2 b (addInput i2 a (snd (insertNode_create aten_add t1)))) = t5"
    using i2_top i2_new(2)
    by (simp add: inn addInput_def addInput_other cnode_def addInput_node_def t5_def)
  define t6 where "t6 = setType add_output (t_type t5 out) t5"
  have ty6: "t_type t6 = (t_type t)(cOne := IntType, add_output := t_type t out)"
    using c_out s_out by (simp add: t6_def t5_def setType_def)
  have p6: "pending t6 = n # rest"
    by (simp add: t6_def t5_def assms(1))
  have d: "destroyCurrent (replaceAllUsesWith out add_output t6) =
      Inr ((replaceAllUsesWith out add_output t6)\<lparr>pending := map (rauw_node out add_output) rest\<rparr>)"
    and nu: "out \<notin> set (uses ((replaceAllUsesWith out add_output t6)\<lparr>pending := map (rauw_node out add_output) rest\<rparr>))"
    using rauw_destroy [OF p6 o s_out [symmetric]] by simp_all
  have t': "(replaceAllUsesWith out add_output t6)\<lparr>pending := map (rauw_node out add_output) rest\<rparr> = t'"
    using assms(8,9) c_out s_out
    by (simp add: assms(15,14) replaceAllUsesWith_def t6_def t5_def setType_def cnode_def
        i1_def i2_def subst_def)
  have d': "destroyCurrent (replaceAllUsesWith out add_output
      (setType add_output (t_type t5 out) t5)) = Inr t'"
    using d t' by (simp add: t6_def)
  have run: "visit_AutogradAdd n t st =
     Inr ([t1, snd (insertNode_create aten_add t1),
           addInput i2 a (snd (insertNode_create aten_add t1)),
           addInput i2 b (addInput i2 a (snd (insertNode_create aten_add t1))),
           t5, t6, replaceAllUsesWith out add_output t6, t'], t',
          (snd (state_index (snd (state_index st a)) b))(add_output \<mapsto> Nonzero))"
    using assms(3-7) a5
    by (simp add: visit_AutogradAdd_def ebind_def Let_def case_prod_beta ic inn t6_def d')
  have gone: "nid n \<notin> set (node_ids t')"
    using assms(10) top_ids_subset [of t] i2_new(1) fresh_node_new [of t] assms(1)
    by (auto simp: assms(15,14) node_ids_def comp_def i1_def [symmetric] i2_def [symmetric])
  show ?thesis
    using run s_new(1) nu gone
    by (simp add: v t' [symmetric] ty6)
qed

definition replace_uses :: "(vid \<times> vid) list \<Rightarrow> vid \<Rightarrow> vid" where
  "replace_uses ps = fold (\<lambda>(v, w). subst v w) ps"

definition rauw_nodes :: "(vid \<times> vid) list \<Rightarrow> node \<Rightarrow> node" where
  "rauw_nodes ps = fold (\<lambda>(v, w). rauw_node v w) ps"

definition rauw_trav :: "(vid \<times> vid) list \<Rightarrow> trav \<Rightarrow> trav" where
  "rauw_trav ps = fold (\<lambda>(v, w). replaceAllUsesWith v w) ps"

lemma replace_uses_simps [simp]:
  "replace_uses [] x = x"
  "replace_uses ((v, w) # ps) x = replace_uses ps (subst v w x)"
  by (simp_all add: replace_uses_def)

lemma rauw_nodes_simps [simp]:
  "rauw_nodes [] m = m"
  "rauw_nodes ((v, w) # ps) m = rauw_nodes ps (rauw_node v w m)"
  by (simp_all add: rauw_nodes_def)

lemma rauw_trav_simps [simp]:
  "rauw_trav [] t = t"
  "rauw_trav ((v, w) # ps) t = rauw_trav ps (replaceAllUsesWith v w t)"
  by (simp_all add: rauw_trav_def)

lemma rauw_nodes_fun:
  "rauw_nodes [] = id"
  "rauw_nodes ((v, w) # ps) = rauw_nodes ps \<circ> rauw_node v w"
  "replace_uses [] = id"
  "replace_uses ((v, w) # ps) = replace_uses ps \<circ> subst v w"
  by (simp_all add: fun_eq_iff)

lemma passed_rauw_trav [simp]: "passed (rauw_trav ps t) = map (rauw_nodes ps) (passed t)"
  by (induction ps arbitrary: t) (simp_all add: split_paired_all rauw_nodes_fun)

lemma pending_rauw_trav [simp]: "pending (rauw_trav ps t) = map (rauw_nodes ps) (pending t)"
  by (induction ps arbitrary: t) (simp_all add: split_paired_all rauw_nodes_fun)

lemma t_outputs_rauw_trav [simp]:
  "t_outputs (rauw_trav ps t) = map (replace_uses ps) (t_outputs t)"
  by (induction ps arbitrary: t) (simp_all add: split_paired_all rauw_nodes_fun)

lemma t_inputs_rauw_trav [simp]: "t_inputs (rauw_trav ps t) = t_inputs t"
  by (induction ps arbitrary: t) (simp_all add: split_paired_all)

lemma t_type_rauw_trav [simp]: "t_type (rauw_trav ps t) = t_type t"
  by (induction ps arbitrary: t) (simp_all add: split_paired_all)

lemma rauw_nodes_fields [simp]:
  "nid (rauw_nodes ps m) = nid m"
  "kind (rauw_nodes ps m) = kind m"
  "outputs (rauw_nodes ps m) = outputs m"
  "ids_node (rauw_nodes ps m) = ids_node m"
  "defs_node (rauw_nodes ps m) = defs_node m"
  by (induction ps arbitrary: m; simp add: split_paired_all)+

lemma uses_rauw_nodes: "uses_node (rauw_nodes ps m) = map (replace_uses ps) (uses_node m)"
  by (induction ps arbitrary: m) (simp_all add: split_paired_all uses_rauw rauw_nodes_fun)

lemma uses_rauw_trav: "uses (rauw_trav ps t) = map (replace_uses ps) (uses t)"
  by (induction ps arbitrary: t) (simp_all add: split_paired_all uses_replaceAllUsesWith rauw_nodes_fun)

lemma inputs_rauw_node: "inputs (rauw_node v w m) = map (subst v w) (inputs m)"
  by (cases m) simp

lemma blocks_rauw_node: "blocks (rauw_node v w m) = map (rauw_block v w) (blocks m)"
  by (cases m) simp

lemma replace_uses_leaves:
  "(x \<in> S \<longrightarrow> x \<in> fst ` set ps) \<Longrightarrow> snd ` set ps \<inter> S = {} \<Longrightarrow> replace_uses ps x \<notin> S"
proof (induction ps arbitrary: x)
  case Nil
  then show ?case by simp
next
  case (Cons p ps)
  obtain v w where p: "p = (v, w)" by force
  have "replace_uses ps (subst v w x) \<notin> S"
  proof (rule Cons.IH)
    show "subst v w x \<in> S \<longrightarrow> subst v w x \<in> fst ` set ps"
      using Cons.prems by (auto simp: p subst_def)
    show "snd ` set ps \<inter> S = {}"
      using Cons.prems(2) by auto
  qed
  then show ?case by (simp add: p)
qed

lemma replace_uses_map_of:
  "distinct (map fst ps) \<Longrightarrow> set (map fst ps) \<inter> set (map snd ps) = {} \<Longrightarrow>
   replace_uses ps x = (case map_of ps x of None \<Rightarrow> x | Some w \<Rightarrow> w)"
proof (induction ps arbitrary: x)
  case Nil
  then show ?case by simp
next
  case (Cons p ps)
  obtain v w where p: "p = (v, w)" by force
  have d: "distinct (map fst ps)" and i: "set (map fst ps) \<inter> set (map snd ps) = {}"
    using Cons.prems by auto
  have "w \<notin> fst ` set ps"
    using Cons.prems(2) by (auto simp: p)
  then have "map_of ps w = None"
    by (simp add: map_of_eq_None_iff)
  then show ?case
    using Cons.IH [OF d i] by (simp add: p subst_def)
qed

lemma replace_each_snd: "snd (replace_each vs w t) = rauw_trav (map (\<lambda>v. (v, w)) vs) t"
proof (induction vs arbitrary: t)
  case Nil
  show ?case by simp
next
  case (Cons v vs)
  show ?case unfolding replace_each_snd_Cons Cons.IH by simp
qed

lemma hoist_nodes_snd:
  "pending t = n # rest \<Longrightarrow> blocks n = Block ms bouts # bs \<Longrightarrow>
   snd (hoist_nodes ms t) =
     t\<lparr>passed := passed t @ ms,
       pending := Node (nid n) (kind n) (inputs n) (outputs n) (Block [] bouts # bs) # rest\<rparr>"
proof (induction ms arbitrary: t n)
  case Nil
  then have "Node (nid n) (kind n) (inputs n) (outputs n) (Block [] bouts # bs) = n"
    by (cases n) simp
  then show ?case using Nil by simp
next
  case (Cons m ms)
  let ?n1 = "Node (nid n) (kind n) (inputs n) (outputs n) (Block ms bouts # bs)"
  have m: "moveBefore_current m t = t\<lparr>passed := passed t @ [m], pending := ?n1 # rest\<rparr>"
    using Cons.prems by (simp add: moveBefore_current_def)
  have "snd (hoist_nodes ms (moveBefore_current m t)) =
      (moveBefore_current m t)\<lparr>passed := passed (moveBefore_current m t) @ ms,
        pending := Node (nid ?n1) (kind ?n1) (inputs ?n1) (outputs ?n1) (Block [] bouts # bs) # rest\<rparr>"
    by (rule Cons.IH) (simp_all add: m)
  then show ?case
    unfolding hoist_snd_Cons by (simp add: m)
qed

lemma insertAutogradZero_after_eq:
  "pending t = n # rest \<Longrightarrow>
   insertAutogradZero_after t =
     (fresh_value t,
      t\<lparr>pending := n # Node (fresh_node t) prim_AutogradZero [] [fresh_value t] [] # rest,
        t_type := (t_type t)(fresh_value t := TensorType None)\<rparr>)"
  by (simp add: insertAutogradZero_after_def Let_def setType_def insert_after_def)

lemma rauw_nodes_leaf [simp]: "rauw_nodes ps (Node i k [] outs []) = Node i k [] outs []"
  by (induction ps) (simp_all add: split_paired_all)

lemma uses_drop_current:
  "pending t = n # rest \<Longrightarrow> set (uses (t\<lparr>pending := rest\<rparr>)) \<subseteq> set (uses t)"
  by (auto simp: uses_def)

lemma node_ids_drop_current:
  "pending t = n # rest \<Longrightarrow>
   node_ids (t\<lparr>pending := rest\<rparr>) = concat (map ids_node (passed t @ rest))"
  by (simp add: node_ids_def)

lemma ids_map_rauw_nodes [simp]:
  "concat (map ids_node (map (rauw_nodes ps) ns)) = concat (map ids_node ns)"
  by (simp add: comp_def)

lemma replace_uses_same:
  "replace_uses (map (\<lambda>v. (v, w)) vs) x = (if x \<in> set vs then w else x)"
  by (induction vs arbitrary: x) (auto simp: subst_def)

text \<open>
  The visit of a conditional whose condition comes from an any-nonzero test whose operands
  are all classified \<open>Zero\<close>: one zero producer is put right after the conditional (the
  first graph of the record), its output is classified \<open>Zero\<close>, every output of the
  conditional is replaced by that value and the conditional is deleted.
\<close>

lemma visit_all_zero_conditional:
  assumes "pending t = n # rest" and "kind n = prim_If"
    and "input_at n 0 = Inr c" and "kind (node_of t c) = prim_AutogradAnyNonZero"
    and "list_all (\<lambda>v. state_at st v = Zero) (inputs (node_of t c))"
    and "nid n \<notin> set (concat (map ids_node (passed t @ rest)))"
    and "zero = fresh_value t"
    and "zero_node = Node (fresh_node t) prim_AutogradZero [] [zero] []"
    and "ps = map (\<lambda>v. (v, zero)) (outputs n)"
    and "t' = \<lparr>t_inputs = t_inputs t,
               passed = map (rauw_nodes ps) (passed t),
               pending = zero_node # map (rauw_nodes ps) rest,
               t_outputs = map (replace_uses ps) (t_outputs t),
               t_type = (t_type t)(zero := TensorType None)\<rparr>"
  shows "(\<exists>log st'. visit t st = Inr (log, t', st') \<and> log \<noteq> []
            \<and> hd log = t\<lparr>pending := n # zero_node # rest,
                           t_type := (t_type t)(zero := TensorType None)\<rparr>
            \<and> last log = t'
            \<and> state_at st' zero = Zero
            \<and> (\<forall>v. v \<noteq> zero \<longrightarrow> state_at st' v = state_at st v))
         \<and> zero \<notin> set (t_inputs t @ uses t @ defs t)
         \<and> list_all (\<lambda>x. replace_uses ps x = zero) (outputs n)
         \<and> set (outputs n) \<inter> set (uses t') = {}
         \<and> nid n \<notin> set (node_ids t')"
proof -
  have v: "visit t st = visit_If n t st"
    using assms(1,2) by (simp add: visit_def)
  define t1 where "t1 = t\<lparr>pending := n # zero_node # rest,
      t_type := (t_type t)(zero := TensorType None)\<rparr>"
  have ins: "insertAutogradZero_after t = (zero, t1)"
    by (simp add: insertAutogradZero_after_eq [OF assms(1)] assms(7,8) t1_def)
  have z_new: "zero \<notin> set (t_inputs t @ uses t @ defs t)"
    using fresh_value_new [of t] by (simp add: assms(7))
  have "set (outputs n) \<subseteq> set (defs t)"
    using pending_outputs_defs [OF assms(1)] .
  then have z_out: "zero \<notin> set (outputs n)"
    using z_new by auto
  define t2 where "t2 = rauw_trav ps t1"
  have p2: "pending t2 = rauw_nodes ps n # zero_node # map (rauw_nodes ps) rest"
    by (simp add: t2_def t1_def assms(8))
  have leaves: "\<And>x. replace_uses ps x \<notin> set (outputs n)"
    by (rule replace_uses_leaves) (use z_out in \<open>auto simp: assms(9) image_image\<close>)
  have u2: "set (outputs n) \<inter> set (uses t2) = {}"
    using leaves by (auto simp: t2_def uses_rauw_trav)
  have t2': "t2\<lparr>pending := zero_node # map (rauw_nodes ps) rest\<rparr> = t'"
    by (simp add: t2_def t1_def assms(10))
  have d: "destroyCurrent t2 = Inr t'"
    using destroyCurrent_ok [OF p2] u2 t2' by simp
  have u': "set (outputs n) \<inter> set (uses t') = {}"
    using u2 uses_drop_current [OF p2] t2' by auto
  have az: "fst (all_of_state Zero st (inputs (node_of t c)))"
    using assms(5) by (simp add: all_of_state_fst)
  define st2 where "st2 = snd (all_of_state Nonzero (snd (all_of_state Zero st (inputs (node_of t c))))
      (inputs (node_of t c)))"
  have run: "visit_If n t st = Inr (t1 # fst (replace_each (outputs n) zero t1) @ [t'], t',
      st2(zero \<mapsto> Zero))"
    using assms(3,4) az d
    by (simp add: visit_If_def ebind_def Let_def case_prod_beta ins replace_each_snd
        assms(9) [symmetric] t2_def [symmetric] st2_def)
  have each: "list_all (\<lambda>x. replace_uses ps x = zero) (outputs n)"
    by (simp add: list_all_iff assms(9) replace_uses_same)
  have gone: "nid n \<notin> set (node_ids t')"
    using assms(6) fresh_node_new [of t] assms(1) nid_in_ids [of n]
    by (auto simp: assms(10,8) node_ids_def comp_def)
  show ?thesis
    using run z_new each u' gone
    by (simp add: v t1_def st2_def)
qed

lemma inline_outputs_run:
  assumes "pending t = n # rest" and "blocks n = Block bns bouts # bs"
    and "list_all (\<lambda>j. j < length (outputs n) \<and> j < length bouts) js"
    and "set (outputs n) \<inter> set bouts = {}"
  shows "\<exists>log. inline_outputs js t st =
           Inr (log, rauw_trav (map (\<lambda>j. (outputs n ! j, bouts ! j)) js) t,
                fold (\<lambda>j s. s(bouts ! j \<mapsto> Nonzero)) js st)"
  using assms
proof (induction js arbitrary: t n rest bns bs st)
  case Nil
  then show ?case by simp
next
  case (Cons j js)
  let ?v = "outputs n ! j" and ?w = "bouts ! j"
  let ?t1 = "replaceAllUsesWith ?v ?w t"
  have j: "j < length (outputs n)" "j < length bouts"
    using Cons.prems(3) by simp_all
  have "?v \<in> set (outputs n)"
    using j(1) by simp
  then have "?v \<notin> set bouts"
    using Cons.prems(4) by blast
  then have b1: "blocks (rauw_node ?v ?w n) = Block (map (rauw_node ?v ?w) bns) bouts # map (rauw_block ?v ?w) bs"
    using Cons.prems(2) by (simp add: blocks_rauw_node map_subst_unused)
  have p1: "pending ?t1 = rauw_node ?v ?w n # map (rauw_node ?v ?w) rest"
    using Cons.prems(1) by simp
  have "\<exists>log. inline_outputs js ?t1 (st(?w \<mapsto> Nonzero)) =
      Inr (log, rauw_trav (map (\<lambda>j. (outputs (rauw_node ?v ?w n) ! j, bouts ! j)) js) ?t1,
           fold (\<lambda>j s. s(bouts ! j \<mapsto> Nonzero)) js (st(?w \<mapsto> Nonzero)))"
    by (rule Cons.IH [OF p1 b1]) (use Cons.prems(3,4) in simp_all)
  then obtain log where "inline_outputs js ?t1 (st(?w \<mapsto> Nonzero)) =
      Inr (log, rauw_trav (map (\<lambda>j. (outputs n ! j, bouts ! j)) js) ?t1,
           fold (\<lambda>j s. s(bouts ! j \<mapsto> Nonzero)) js (st(?w \<mapsto> Nonzero)))"
    by auto
  then show ?case
    using Cons.prems(1,2) j by (simp add: ebind_def Let_def del: fun_upd_apply)
qed

lemma zip_as_map:
  "length xs \<le> length ys \<Longrightarrow> map (\<lambda>j. (xs ! j, ys ! j)) [0..<length xs] = zip xs ys"
  by (rule nth_equalityI) simp_all

lemma fold_mark_at:
  "list_all (\<lambda>j. j < length bouts) js \<Longrightarrow>
   state_at (fold (\<lambda>j s. s(bouts ! j \<mapsto> Nonzero)) js st) x =
     (if x \<in> (\<lambda>j. bouts ! j) ` set js then Nonzero else state_at st x)"
  by (induction js arbitrary: st) auto

lemma replace_uses_zip:
  assumes "length xs \<le> length ys" and "set xs \<inter> set ys = {}" and "distinct xs"
  shows "map (replace_uses (zip xs ys)) xs = take (length xs) ys"
proof (rule nth_equalityI)
  show "length (map (replace_uses (zip xs ys)) xs) = length (take (length xs) ys)"
    using assms(1) by simp
next
  fix i assume "i < length (map (replace_uses (zip xs ys)) xs)"
  then have i: "i < length xs" by simp
  let ?ys = "take (length xs) ys"
  have z: "zip xs ys = zip xs ?ys"
    using take_zip [of "length xs" xs ys] assms(1) by simp
  have f: "map fst (zip xs ?ys) = xs" and s: "map snd (zip xs ?ys) = ?ys"
    using assms(1) by simp_all
  have "set ?ys \<subseteq> set ys" by (rule set_take_subset)
  then have "set (map fst (zip xs ?ys)) \<inter> set (map snd (zip xs ?ys)) = {}"
    unfolding f s using assms(2) by auto
  moreover have "distinct (map fst (zip xs ?ys))"
    unfolding f using assms(3) .
  ultimately have "replace_uses (zip xs ?ys) (xs ! i) =
      (case map_of (zip xs ?ys) (xs ! i) of None \<Rightarrow> xs ! i | Some w \<Rightarrow> w)"
    by (rule replace_uses_map_of [rotated])
  moreover have "map_of (zip xs ?ys) (xs ! i) = Some (?ys ! i)"
    using assms(1,3) i by (intro map_of_zip_nth) simp_all
  ultimately show "map (replace_uses (zip xs ys)) xs ! i = take (length xs) ys ! i"
    using i z by simp
qed

text \<open>
  The visit of a conditional whose condition comes from an any-nonzero test with at least
  one operand, all of them classified \<open>Nonzero\<close>: the nodes of the first block are moved
  before the conditional, in their order, the outputs of the conditional are replaced one
  for one by the outputs of that block, these are classified \<open>Nonzero\<close> and the
  conditional is deleted.
\<close>

lemma visit_all_nonzero_conditional:
  assumes "pending t = n # rest" and "kind n = prim_If"
    and "input_at n 0 = Inr c" and "kind (node_of t c) = prim_AutogradAnyNonZero"
    and "inputs (node_of t c) \<noteq> []"
    and "list_all (\<lambda>v. state_at st v = Nonzero) (inputs (node_of t c))"
    and "blocks n = Block body_nodes body_outputs # bs"
    and "length (outputs n) \<le> length body_outputs"
    and "set (outputs n) \<inter> set body_outputs = {}"
    and "distinct (outputs n)"
    and "nid n \<notin> set (concat (map ids_node (passed t @ body_nodes @ rest)))"
    and "ps = zip (outputs n) body_outputs"
    and "t' = \<lparr>t_inputs = t_inputs t,
               passed = map (rauw_nodes ps) (passed t @ body_nodes),
               pending = map (rauw_nodes ps) rest,
               t_outputs = map (replace_uses ps) (t_outputs t),
               t_type = t_type t\<rparr>"
  shows "(\<exists>log st'. visit t st = Inr (log, t', st') \<and> log \<noteq> [] \<and> last log = t'
            \<and> list_all (\<lambda>v. state_at st' v = Nonzero) (take (length (outputs n)) body_outputs)
            \<and> (\<forall>v. v \<notin> set (take (length (outputs n)) body_outputs)
                  \<longrightarrow> state_at st' v = state_at st v))
         \<and> map (replace_uses ps) (outputs n) = take (length (outputs n)) body_outputs
         \<and> set (outputs n) \<inter> set (uses t') = {}
         \<and> nid n \<notin> set (node_ids t')"
proof -
  let ?ins = "inputs (node_of t c)"
  have v: "visit t st = visit_If n t st"
    using assms(1,2) by (simp add: visit_def)
  have naz: "\<not> fst (all_of_state Zero st ?ins)"
    using assms(5,6) unfolding all_of_state_fst by (cases ?ins) auto
  have an: "fst (all_of_state Nonzero (snd (all_of_state Zero st ?ins)) ?ins)"
    using assms(6) by (simp add: all_of_state_fst)
  define st2 where "st2 = snd (all_of_state Nonzero (snd (all_of_state Zero st ?ins)) ?ins)"
  define n0 where "n0 = Node (nid n) (kind n) (inputs n) (outputs n) (Block [] body_outputs # bs)"
  define t1 where "t1 = t\<lparr>passed := passed t @ body_nodes, pending := n0 # rest\<rparr>"
  have h: "snd (hoist_nodes body_nodes t) = t1"
    using hoist_nodes_snd [OF assms(1,7)] by (simp add: t1_def n0_def)
  have p1: "pending t1 = n0 # rest" and b0: "blocks n0 = Block [] body_outputs # bs"
    and o0: "outputs n0 = outputs n"
    by (simp_all add: t1_def n0_def)
  have "\<exists>log. inline_outputs [0..<length (outputs n)] t1 st2 =
      Inr (log, rauw_trav (map (\<lambda>j. (outputs n0 ! j, body_outputs ! j)) [0..<length (outputs n)]) t1,
           fold (\<lambda>j s. s(body_outputs ! j \<mapsto> Nonzero)) [0..<length (outputs n)] st2)"
    by (rule inline_outputs_run [OF p1 b0]) (use assms(8,9) in \<open>simp_all add: o0 list_all_iff\<close>)
  then obtain log2 where i: "inline_outputs [0..<length (outputs n)] t1 st2 =
      Inr (log2, rauw_trav ps t1,
           fold (\<lambda>j s. s(body_outputs ! j \<mapsto> Nonzero)) [0..<length (outputs n)] st2)"
    using zip_as_map [OF assms(8)] by (auto simp: o0 assms(12))
  define st3 where "st3 = fold (\<lambda>j s. s(body_outputs ! j \<mapsto> Nonzero)) [0..<length (outputs n)] st2"
  define t2 where "t2 = rauw_trav ps t1"
  have p2: "pending t2 = rauw_nodes ps n0 # map (rauw_nodes ps) rest"
    by (simp add: t2_def t1_def)
  have fst_ps: "fst ` set ps = set (outputs n)" and snd_ps: "snd ` set ps \<subseteq> set body_outputs"
    using assms(8) by (auto simp: assms(12) set_zip image_def) (metis in_set_conv_nth order_less_le_trans)
  have leaves: "\<And>x. replace_uses ps x \<notin> set (outputs n)"
    by (rule replace_uses_leaves) (use fst_ps snd_ps assms(9) in auto)
  have u2: "set (outputs (rauw_nodes ps n0)) \<inter> set (uses t2) = {}"
    using leaves by (auto simp: t2_def uses_rauw_trav o0)
  have t2': "t2\<lparr>pending := map (rauw_nodes ps) rest\<rparr> = t'"
    by (simp add: t2_def t1_def assms(13))
  have d: "destroyCurrent t2 = Inr t'"
    using destroyCurrent_ok [OF p2 u2] t2' by simp
  have u': "set (outputs n) \<inter> set (uses t') = {}"
    using u2 uses_drop_current [OF p2] t2' by (auto simp: o0)
  have run: "visit_If n t st = Inr (fst (hoist_nodes body_nodes t) @ log2 @ [t'], t', st3)"
    using assms(3,4,7) naz an d i h
    by (simp add: visit_If_def ebind_def Let_def case_prod_beta st2_def [symmetric]
        t2_def [symmetric] st3_def [symmetric])
  have "(\<lambda>j. body_outputs ! j) ` set [0..<length (outputs n)]
      = set (take (length (outputs n)) body_outputs)"
    using nth_image [OF assms(8)] by simp
  then have marks: "\<And>x. state_at st3 x =
      (if x \<in> set (take (length (outputs n)) body_outputs) then Nonzero else state_at st x)"
    using assms(8) by (simp add: st3_def fold_mark_at list_all_iff st2_def)
  have one: "map (replace_uses ps) (outputs n) = take (length (outputs n)) body_outputs"
    using assms(8,9,10) unfolding assms(12) by (rule replace_uses_zip)
  have gone: "nid n \<notin> set (node_ids t')"
    using assms(11) by (simp add: assms(13) node_ids_def comp_def)
  show ?thesis
    using run marks one u' gone
    by (simp add: v list_all_iff)
qed

section \<open>Nodes that are left alone, on concrete graphs\<close>

definition trav_add :: trav where
  "trav_add =
     \<lparr>t_inputs = [2, 3], passed = [],
      pending = [Node 10 prim_AutogradAdd [2, 3] [4] [], Node 11 (other_kind 0) [4] [5] []],
      t_outputs = [5], t_type = (\<lambda>v. TensorType None)\<rparr>"

theorem mixed_add_is_left_alone_witness:
  "visit trav_add [2 \<mapsto> Unknown, 3 \<mapsto> Nonzero]
     = Inr ([], advance trav_add, [2 \<mapsto> Unknown, 3 \<mapsto> Nonzero, 4 \<mapsto> Unknown])
   \<and> graph_of (advance trav_add) = graph_of trav_add"
proof -
  let ?n = "Node 10 prim_AutogradAdd [2, 3] [4] []"
  let ?st = "[2 \<mapsto> Unknown, 3 \<mapsto> Nonzero] :: smap"
  have 1: "pending trav_add = ?n # [Node 11 (other_kind 0) [4] [5] []]"
    by (simp add: trav_add_def)
  have 2: "kind ?n = prim_AutogradAdd" by simp
  have 3: "input_at ?n 0 = Inr 2" "input_at ?n 1 = Inr 3" "output_of ?n = Inr 4"
    by (simp_all add: input_at_def output_of_def)
  have 4: "state_at ?st 2 \<noteq> Zero" "state_at ?st 3 \<noteq> Zero"
    "\<not> (state_at ?st 2 = Nonzero \<and> state_at ?st 3 = Nonzero)"
    by (simp_all add: state_at_def state_index_def)
  have 5: "snd (state_index (snd (state_index ?st 2)) 3) = ?st"
    by (simp add: state_index_def)
  show ?thesis
    using mixed_add_is_left_alone [OF 1 2 3 4] by (simp add: 5)
qed

definition trav_plain_if :: trav where
  "trav_plain_if =
     \<lparr>t_inputs = [2, 3], passed = [],
      pending = [Node 11 prim_If [2] [4] [Block [] [3], Block [] [3]]],
      t_outputs = [4], t_type = (\<lambda>v. TensorType None)\<rparr>"

theorem plain_conditional_is_left_alone_witness:
  "visit trav_plain_if [2 \<mapsto> Unknown, 3 \<mapsto> Zero]
     = Inr ([], advance trav_plain_if, [2 \<mapsto> Unknown, 3 \<mapsto> Zero, 4 \<mapsto> Unknown])
   \<and> graph_of (advance trav_plain_if) = graph_of trav_plain_if"
proof -
  let ?n = "Node 11 prim_If [2] [4] [Block [] [3], Block [] [3]]"
  have 1: "pending trav_plain_if = ?n # []"
    by (simp add: trav_plain_if_def)
  have 2: "kind ?n = prim_If" by simp
  have 3: "input_at ?n 0 = Inr 2"
    by (simp add: input_at_def)
  have 4: "kind (node_of trav_plain_if 2) \<noteq> prim_AutogradAnyNonZero"
    by (simp add: node_of_def producer_def trav_plain_if_def param_node_def)
  show ?thesis
    using plain_conditional_is_left_alone [OF 1 2 3 4, of "[2 \<mapsto> Unknown, 3 \<mapsto> Zero]"]
    by (simp add: mark_outputs_def)
qed

section \<open>Definitions precede uses\<close>

text \<open>
  Program order is dependency order: the inputs of a node are graph inputs or outputs of
  nodes before it, in its own block or in an enclosing one; the outputs of a block are in
  scope at the end of the block, the outputs of the graph at the end of the graph. In the
  source a value is an object owned by the one node that produces it, so no value has two
  definitions; on numbered values this is a condition of its own.
\<close>

definition top_defs :: "node list \<Rightarrow> vid list" where
  "top_defs ns = concat (map outputs ns)"

fun scoped_nodes :: "vid set \<Rightarrow> node list \<Rightarrow> bool"
  and scoped_node :: "vid set \<Rightarrow> node \<Rightarrow> bool"
  and scoped_blocks :: "vid set \<Rightarrow> block list \<Rightarrow> bool"
  and scoped_block :: "vid set \<Rightarrow> block \<Rightarrow> bool" where
  "scoped_nodes env [] = True"
| "scoped_nodes env (n # ns) = (scoped_node env n \<and> scoped_nodes (env \<union> set (outputs n)) ns)"
| "scoped_node env (Node i k ins outs bs) = (set ins \<subseteq> env \<and> scoped_blocks env bs)"
| "scoped_blocks env [] = True"
| "scoped_blocks env (b # bs) = (scoped_block env b \<and> scoped_blocks env bs)"
| "scoped_block env (Block ns os) =
     (scoped_nodes env ns \<and> set os \<subseteq> env \<union> set (top_defs ns))"

definition single_definitions :: "graph \<Rightarrow> bool" where
  "single_definitions g = distinct (ginputs g @ concat (map defs_node (gnodes g)))"

definition defs_precede_uses :: "graph \<Rightarrow> bool" where
  "defs_precede_uses g =
     (scoped_nodes (set (ginputs g)) (gnodes g)
      \<and> set (goutputs g) \<subseteq> set (ginputs g) \<union> set (top_defs (gnodes g)))"

definition well_formed :: "graph \<Rightarrow> bool" where
  "well_formed g = (single_definitions g \<and> defs_precede_uses g)"

lemma top_defs_simps [simp]:
  "top_defs [] = []"
  "top_defs (n # ns) = outputs n @ top_defs ns"
  "top_defs (xs @ ys) = top_defs xs @ top_defs ys"
  by (simp_all add: top_defs_def)

lemma scoped_mono:
  "scoped_nodes env ns \<Longrightarrow> env \<subseteq> env' \<Longrightarrow> scoped_nodes env' ns"
  "scoped_node env n \<Longrightarrow> env \<subseteq> env' \<Longrightarrow> scoped_node env' n"
  "scoped_blocks env bs \<Longrightarrow> env \<subseteq> env' \<Longrightarrow> scoped_blocks env' bs"
  "scoped_block env b \<Longrightarrow> env \<subseteq> env' \<Longrightarrow> scoped_block env' b"
proof (induction env ns and env n and env bs and env b arbitrary: env' and env' and env' and env'
    rule: scoped_nodes_scoped_node_scoped_blocks_scoped_block.induct)
  case (2 env n ns)
  then show ?case
    by (metis Un_mono scoped_nodes.simps(2) subset_refl)
qed auto

lemma scoped_nodes_append:
  "scoped_nodes env (xs @ ys) =
     (scoped_nodes env xs \<and> scoped_nodes (env \<union> set (top_defs xs)) ys)"
  by (induction xs arbitrary: env) (simp_all add: Un_assoc)

lemma top_defs_subset_defs: "set (top_defs ns) \<subseteq> set (concat (map defs_node ns))"
  using outputs_in_defs by (fastforce simp: top_defs_def)

lemma scoped_uses:
  "scoped_nodes env ns \<Longrightarrow>
     set (concat (map uses_node ns)) \<subseteq> env \<union> set (concat (map defs_node ns))"
  "scoped_node env n \<Longrightarrow>
     set (uses_node n) \<subseteq> env \<union> set (concat (map defs_block (blocks n)))"
  "scoped_blocks env bs \<Longrightarrow>
     set (concat (map uses_block bs)) \<subseteq> env \<union> set (concat (map defs_block bs))"
  "scoped_block env b \<Longrightarrow> set (uses_block b) \<subseteq> env \<union> set (defs_block b)"
proof (induction env ns and env n and env bs and env b
    rule: scoped_nodes_scoped_node_scoped_blocks_scoped_block.induct)
  case (2 env n ns)
  have "set (outputs n) \<subseteq> set (defs_node n)" by (rule outputs_in_defs)
  moreover have "set (concat (map defs_block (blocks n))) \<subseteq> set (defs_node n)"
    by (cases n) auto
  ultimately show ?case using 2 by auto
next
  case (6 env ns os)
  then show ?case using top_defs_subset_defs [of ns] by auto
qed auto

lemma top_defs_map_rauw [simp]: "top_defs (map (rauw_node v w) ns) = top_defs ns"
  by (simp add: top_defs_def comp_def)

lemma scoped_rauw:
  "scoped_nodes env ns \<Longrightarrow> w \<in> env \<Longrightarrow> scoped_nodes env (map (rauw_node v w) ns)"
  "scoped_node env n \<Longrightarrow> w \<in> env \<Longrightarrow> scoped_node env (rauw_node v w n)"
  "scoped_blocks env bs \<Longrightarrow> w \<in> env \<Longrightarrow> scoped_blocks env (map (rauw_block v w) bs)"
  "scoped_block env b \<Longrightarrow> w \<in> env \<Longrightarrow> scoped_block env (rauw_block v w b)"
proof (induction env ns and env n and env bs and env b
    rule: scoped_nodes_scoped_node_scoped_blocks_scoped_block.induct)
  case (3 env i k ins outs bs)
  then show ?case by (auto simp: subst_def)
next
  case (6 env ns os)
  then show ?case by (auto simp: subst_def)
qed auto

lemma scoped_shrink:
  "scoped_nodes env ns \<Longrightarrow> X \<inter> set (concat (map uses_node ns)) = {} \<Longrightarrow>
     scoped_nodes (env - X) ns"
  "scoped_node env n \<Longrightarrow> X \<inter> set (uses_node n) = {} \<Longrightarrow> scoped_node (env - X) n"
  "scoped_blocks env bs \<Longrightarrow> X \<inter> set (concat (map uses_block bs)) = {} \<Longrightarrow>
     scoped_blocks (env - X) bs"
  "scoped_block env b \<Longrightarrow> X \<inter> set (uses_block b) = {} \<Longrightarrow> scoped_block (env - X) b"
proof (induction env ns and env n and env bs and env b
    rule: scoped_nodes_scoped_node_scoped_blocks_scoped_block.induct)
  case (2 env n ns)
  have "scoped_nodes (env \<union> set (outputs n) - X) ns"
    using 2 by auto
  then have "scoped_nodes (env - X \<union> set (outputs n)) ns"
    by (rule scoped_mono) auto
  then show ?case using 2 by auto
qed auto

lemma wf_graph_of:
  "well_formed (graph_of t) =
     (distinct (t_inputs t @ concat (map defs_node (passed t @ pending t)))
      \<and> scoped_nodes (set (t_inputs t)) (passed t @ pending t)
      \<and> set (t_outputs t) \<subseteq> set (t_inputs t) \<union> set (top_defs (passed t @ pending t)))"
  by (simp add: well_formed_def single_definitions_def defs_precede_uses_def graph_of_def)

lemma map_rauw_unused:
  "v \<notin> set (concat (map uses_node ns)) \<Longrightarrow> map (rauw_node v w) ns = ns"
  by (induction ns) (simp_all add: rauw_unused)

lemma defs_node_split: "defs_node n = outputs n @ concat (map defs_block (blocks n))"
  by (cases n) simp

lemma unused_before:
  assumes "distinct (I @ concat (map defs_node (P @ n # R)))"
    and "scoped_nodes (set I) (P @ n # R)"
    and "v \<in> set (outputs n)"
  shows "v \<notin> set (concat (map uses_node (P @ [n])))"
proof -
  have sp: "scoped_nodes (set I) P" and sn: "scoped_node (set I \<union> set (top_defs P)) n"
    using assms(2) by (simp_all add: scoped_nodes_append)
  have dn: "distinct (defs_node n)"
    and disj: "set (defs_node n) \<inter> (set I \<union> set (concat (map defs_node P))) = {}"
    using assms(1) by auto
  have "v \<in> set (defs_node n)"
    using assms(3) outputs_in_defs by auto
  then have vI: "v \<notin> set I" and vP: "v \<notin> set (concat (map defs_node P))"
    using disj by auto
  have "distinct (outputs n @ concat (map defs_block (blocks n)))"
    using dn by (simp only: defs_node_split [symmetric])
  then have vin: "v \<notin> set (concat (map defs_block (blocks n)))"
    using assms(3) by auto
  have "v \<notin> set (concat (map uses_node P))"
    using scoped_uses(1) [OF sp] vI vP by auto
  moreover have "v \<notin> set (top_defs P)"
    using vP top_defs_subset_defs [of P] by blast
  then have "v \<notin> set (uses_node n)"
    using scoped_uses(2) [OF sn] vI vin by blast
  ultimately show ?thesis by simp
qed

lemma wf_rauw_parts:
  assumes "scoped_nodes (set I) (A @ B)"
    and "set outs \<subseteq> set I \<union> set (top_defs (A @ B))"
    and "v \<notin> set (concat (map uses_node A))"
    and "w \<in> set I \<union> set (top_defs A)"
  shows "scoped_nodes (set I) (map (rauw_node v w) (A @ B))"
    and "set (map (subst v w) outs) \<subseteq> set I \<union> set (top_defs (A @ B))"
proof -
  have "scoped_nodes (set I \<union> set (top_defs A)) (map (rauw_node v w) B)"
    using assms(1,4) by (simp add: scoped_nodes_append scoped_rauw)
  then show "scoped_nodes (set I) (map (rauw_node v w) (A @ B))"
    using assms(1,3) by (simp add: scoped_nodes_append map_rauw_unused)
  show "set (map (subst v w) outs) \<subseteq> set I \<union> set (top_defs (A @ B))"
    using assms(2,4) by (auto simp: subst_def)
qed

text \<open>Replacing an output of the current node by a value defined before the node.\<close>

lemma wf_rauw_before:
  assumes "well_formed (graph_of t)" and "pending t = n # rest"
    and "v \<in> set (outputs n)" and "w \<in> set (t_inputs t) \<union> set (top_defs (passed t))"
  shows "well_formed (graph_of (replaceAllUsesWith v w t))"
proof -
  let ?A = "passed t @ [n]"
  have eq: "passed t @ pending t = ?A @ rest"
    using assms(2) by simp
  have d: "distinct (t_inputs t @ concat (map defs_node (passed t @ n # rest)))"
    and s: "scoped_nodes (set (t_inputs t)) (passed t @ n # rest)"
    and o: "set (t_outputs t) \<subseteq> set (t_inputs t) \<union> set (top_defs (?A @ rest))"
    using assms(1,2) by (simp_all add: wf_graph_of)
  have u: "v \<notin> set (concat (map uses_node ?A))"
    using unused_before [OF d s assms(3)] .
  have w: "w \<in> set (t_inputs t) \<union> set (top_defs ?A)"
    using assms(4) by auto
  have s': "scoped_nodes (set (t_inputs t)) (?A @ rest)"
    using s by simp
  show ?thesis
    using wf_rauw_parts [OF s' o u w] d
    by (simp add: wf_graph_of replaceAllUsesWith_def assms(2) comp_def)
qed

text \<open>Replacing an output of the current node by the output of the node right after it.\<close>

lemma wf_rauw_after:
  assumes "well_formed (graph_of t)" and "pending t = n # z # rest"
    and "v \<in> set (outputs n)" and "w \<in> set (outputs z)" and "uses_node z = []"
  shows "well_formed (graph_of (replaceAllUsesWith v w t))"
proof -
  let ?A = "passed t @ [n, z]"
  have d: "distinct (t_inputs t @ concat (map defs_node (passed t @ n # z # rest)))"
    and s: "scoped_nodes (set (t_inputs t)) (passed t @ n # z # rest)"
    and o: "set (t_outputs t) \<subseteq> set (t_inputs t) \<union> set (top_defs (?A @ rest))"
    using assms(1,2) by (simp_all add: wf_graph_of)
  have u: "v \<notin> set (concat (map uses_node ?A))"
    using unused_before [OF d s assms(3)] assms(5) by simp
  have w: "w \<in> set (t_inputs t) \<union> set (top_defs ?A)"
    using assms(4) by auto
  have s': "scoped_nodes (set (t_inputs t)) (?A @ rest)"
    using s by simp
  show ?thesis
    using wf_rauw_parts [OF s' o u w] d
    by (simp add: wf_graph_of replaceAllUsesWith_def assms(2) comp_def)
qed

lemma wf_destroyCurrent:
  assumes "well_formed (graph_of t)" and "destroyCurrent t = Inr t'"
  shows "well_formed (graph_of t')"
proof -
  from assms(2) obtain n rest where p: "pending t = n # rest"
    and u: "set (outputs n) \<inter> set (uses t) = {}" and t': "t' = t\<lparr>pending := rest\<rparr>"
    by (auto simp: destroyCurrent_def list_ex_iff split: list.splits if_splits)
  let ?env = "set (t_inputs t) \<union> set (top_defs (passed t))"
  have d: "distinct (t_inputs t @ concat (map defs_node (passed t @ n # rest)))"
    and sp: "scoped_nodes (set (t_inputs t)) (passed t)"
    and sr: "scoped_nodes (?env \<union> set (outputs n)) rest"
    and o: "set (t_outputs t) \<subseteq> ?env \<union> set (outputs n) \<union> set (top_defs rest)"
    using assms(1) p by (auto simp: wf_graph_of scoped_nodes_append)
  have "set (outputs n) \<inter> set (concat (map uses_node rest)) = {}"
    using u p by (auto simp: uses_def)
  from scoped_shrink(1) [OF sr this]
  have "scoped_nodes ?env rest"
    by (rule scoped_mono) auto
  moreover have "set (t_outputs t) \<subseteq> ?env \<union> set (top_defs rest)"
    using o u by (auto simp: uses_def)
  ultimately show ?thesis
    using d sp by (auto simp: wf_graph_of t' scoped_nodes_append)
qed

text \<open>A new node without blocks, put at the end of the passed nodes.\<close>

lemma wf_insert_before:
  assumes "well_formed (graph_of t)"
    and "v \<notin> set (t_inputs t @ uses t @ defs t)"
  shows "well_formed (graph_of (insert_before (Node i k [] [v] []) t))"
proof -
  have "scoped_nodes (set (t_inputs t) \<union> set (top_defs (passed t)) \<union> {v}) (pending t)"
    using assms(1) by (auto simp: wf_graph_of scoped_nodes_append intro: scoped_mono(1))
  then show ?thesis
    using assms by (auto simp: wf_graph_of insert_before_def scoped_nodes_append defs_def)
qed

lemma wf_insert_after:
  assumes "well_formed (graph_of t)" and "pending t = n # rest"
    and "v \<notin> set (t_inputs t @ uses t @ defs t)"
  shows "well_formed (graph_of (insert_after (Node i k [] [v] []) t))"
proof -
  have "scoped_nodes (set (t_inputs t) \<union> set (top_defs (passed t)) \<union> set (outputs n) \<union> {v}) rest"
    using assms(1,2) by (auto simp: wf_graph_of scoped_nodes_append intro: scoped_mono(1))
  then show ?thesis
    using assms by (auto simp: wf_graph_of insert_after_def scoped_nodes_append defs_def)
qed

lemma wf_setType [simp]: "graph_of (setType v tp t) = (graph_of t)\<lparr>vtype := (t_type t)(v := tp)\<rparr>"
  by (simp add: graph_of_def setType_def)

lemma well_formed_vtype [simp]: "well_formed (g\<lparr>vtype := ty\<rparr>) = well_formed g"
  by (simp add: well_formed_def single_definitions_def defs_precede_uses_def)

lemma scoped_node_inputs: "scoped_node env n \<Longrightarrow> set (inputs n) \<subseteq> env"
  by (cases n) simp

lemma scoped_node_addInput:
  "scoped_node env m \<Longrightarrow> v \<in> env \<Longrightarrow> scoped_node env (addInput_node v m)"
  by (cases m) (simp add: addInput_node_def)

lemma addInput_node_fields [simp]:
  "nid (addInput_node v m) = nid m"
  "outputs (addInput_node v m) = outputs m"
  "defs_node (addInput_node v m) = defs_node m"
  by (cases m; simp add: addInput_node_def)+

lemma wf_addInput:
  assumes "well_formed (graph_of t)" and "passed t = P @ [m]" and "nid m = i"
    and "i \<notin> nid ` set P" and "i \<notin> nid ` set (pending t)"
    and "v \<in> set (t_inputs t) \<union> set (top_defs P)"
  shows "well_formed (graph_of (addInput i v t))"
    and "passed (addInput i v t) = P @ [addInput_node v m]"
    and "pending (addInput i v t) = pending t"
    and "t_inputs (addInput i v t) = t_inputs t"
proof -
  show p: "passed (addInput i v t) = P @ [addInput_node v m]"
    using assms(2-4) by (simp add: addInput_def addInput_other)
  show q: "pending (addInput i v t) = pending t"
    using assms(5) by (simp add: addInput_def addInput_other)
  show r: "t_inputs (addInput i v t) = t_inputs t"
    by (simp add: addInput_def)
  have "t_outputs (addInput i v t) = t_outputs t"
    by (simp add: addInput_def)
  then show "well_formed (graph_of (addInput i v t))"
    using assms(1,6) unfolding wf_graph_of p q r assms(2)
    by (auto simp: scoped_nodes_append scoped_node_addInput)
qed

lemma wf_moveBefore:
  assumes "well_formed (graph_of t)" and "pending t = n # rest"
    and "blocks n = Block (m # ms) bouts # bs"
  shows "well_formed (graph_of (moveBefore_current m t))"
proof -
  let ?n1 = "Node (nid n) (kind n) (inputs n) (outputs n) (Block ms bouts # bs)"
  let ?env = "set (t_inputs t) \<union> set (top_defs (passed t))"
  have mv: "moveBefore_current m t = t\<lparr>passed := passed t @ [m], pending := ?n1 # rest\<rparr>"
    using assms(2,3) by (simp add: moveBefore_current_def)
  have n: "n = Node (nid n) (kind n) (inputs n) (outputs n) (Block (m # ms) bouts # bs)"
    using assms(3) by (cases n) simp
  have d: "distinct (t_inputs t @ concat (map defs_node (passed t)) @ defs_node n
      @ concat (map defs_node rest))"
    and sp: "scoped_nodes (set (t_inputs t)) (passed t)"
    and sn: "scoped_node ?env n"
    and sr: "scoped_nodes (?env \<union> set (outputs n)) rest"
    and o: "set (t_outputs t) \<subseteq> ?env \<union> set (outputs n) \<union> set (top_defs rest)"
    using assms(1,2) by (auto simp: wf_graph_of scoped_nodes_append)
  have dn: "defs_node n = outputs n @ defs_node m @ concat (map defs_node ms)
      @ concat (map defs_block bs)"
    by (subst n) simp
  have d': "distinct (t_inputs t @ concat (map defs_node (passed t)) @ defs_node m
      @ defs_node ?n1 @ concat (map defs_node rest))"
    using d unfolding dn by auto
  have sn': "set (inputs n) \<subseteq> ?env" "scoped_node ?env m"
    "scoped_nodes (?env \<union> set (outputs m)) ms"
    "set bouts \<subseteq> ?env \<union> set (outputs m) \<union> set (top_defs ms)"
    "scoped_blocks ?env bs"
    using sn by (subst (asm) n, auto)+
  have "scoped_node (?env \<union> set (outputs m)) ?n1"
    using sn' scoped_mono(3) [OF sn'(5), of "?env \<union> set (outputs m)"] by auto
  moreover have "scoped_nodes (?env \<union> set (outputs m) \<union> set (outputs n)) rest"
    using sr by (rule scoped_mono) auto
  ultimately show ?thesis
    using d' sp sn'(2) o unfolding mv wf_graph_of
    by (auto simp: scoped_nodes_append)
qed

abbreviation wf_trav :: "trav \<Rightarrow> bool" where
  "wf_trav t \<equiv> well_formed (graph_of t)"

lemma replace_each_wf:
  assumes "wf_trav t" and "pending t = n # z # rest" and "outputs z = [w]"
    and "uses_node z = []" and "set vs \<subseteq> set (outputs n)"
  shows "wf_trav (snd (replace_each vs w t)) \<and> list_all wf_trav (fst (replace_each vs w t))
         \<and> (\<exists>n' rest'. pending (snd (replace_each vs w t)) = n' # rest')"
  using assms
proof (induction vs arbitrary: t n z rest)
  case Nil
  then show ?case by simp
next
  case (Cons v vs)
  let ?t1 = "replaceAllUsesWith v w t"
  have w1: "wf_trav ?t1"
    using wf_rauw_after [OF Cons.prems(1,2)] Cons.prems(3,4,5) by simp
  have p1: "pending ?t1 = rauw_node v w n # rauw_node v w z # map (rauw_node v w) rest"
    using Cons.prems(2) by simp
  have "wf_trav (snd (replace_each vs w ?t1)) \<and> list_all wf_trav (fst (replace_each vs w ?t1))
         \<and> (\<exists>n' rest'. pending (snd (replace_each vs w ?t1)) = n' # rest')"
    by (rule Cons.IH [OF w1 p1]) (use Cons.prems(3,4,5) in \<open>simp_all add: uses_rauw\<close>)
  then show ?case
    unfolding replace_each_snd_Cons replace_each_fst_Cons using w1 by simp
qed

lemma hoist_nodes_wf:
  assumes "wf_trav t" and "pending t = n # rest" and "blocks n = Block ms bouts # bs"
  shows "wf_trav (snd (hoist_nodes ms t)) \<and> list_all wf_trav (fst (hoist_nodes ms t))"
  using assms
proof (induction ms arbitrary: t n)
  case Nil
  then show ?case by simp
next
  case (Cons m ms)
  let ?n1 = "Node (nid n) (kind n) (inputs n) (outputs n) (Block ms bouts # bs)"
  let ?t1 = "moveBefore_current m t"
  have w1: "wf_trav ?t1"
    using wf_moveBefore [OF Cons.prems] .
  have p1: "pending ?t1 = ?n1 # rest"
    using Cons.prems(2,3) by (simp add: moveBefore_current_def)
  have "wf_trav (snd (hoist_nodes ms ?t1)) \<and> list_all wf_trav (fst (hoist_nodes ms ?t1))"
    by (rule Cons.IH [OF w1 p1]) simp
  then show ?case
    unfolding hoist_snd_Cons hoist_fst_Cons using w1 by simp
qed

lemma block_outputs_in_scope:
  assumes "wf_trav t" and "pending t = n # rest" and "blocks n = Block [] bouts # bs"
  shows "set bouts \<subseteq> set (t_inputs t) \<union> set (top_defs (passed t))"
proof -
  have "scoped_node (set (t_inputs t) \<union> set (top_defs (passed t))) n"
    using assms(1,2) by (simp add: wf_graph_of scoped_nodes_append)
  then show ?thesis
    using assms(3) by (cases n) auto
qed

lemma inline_outputs_wf:
  assumes "wf_trav t" and "pending t = n # rest" and "blocks n = Block [] bouts # bs"
    and "inline_outputs js t st = Inr (log, t', st')"
  shows "wf_trav t' \<and> list_all wf_trav log \<and> (\<exists>n' rest'. pending t' = n' # rest')"
  using assms
proof (induction js arbitrary: t n rest bs st log)
  case Nil
  then show ?case by simp
next
  case (Cons j js)
  from inline_outputs_Cons_Inr [OF Cons.prems(4)] Cons.prems(2,3)
  obtain log' where j: "j < length (outputs n)" "j < length bouts"
    and run: "inline_outputs js (replaceAllUsesWith (outputs n ! j) (bouts ! j) t)
             (st(bouts ! j \<mapsto> Nonzero)) = Inr (log', t', st')"
    and log: "log = replaceAllUsesWith (outputs n ! j) (bouts ! j) t # log'"
    by auto
  let ?v = "outputs n ! j" and ?w = "bouts ! j"
  let ?t1 = "replaceAllUsesWith ?v ?w t"
  have v: "?v \<in> set (outputs n)" and w: "?w \<in> set bouts"
    using j by simp_all
  have w_in: "?w \<in> set (t_inputs t) \<union> set (top_defs (passed t))"
    using block_outputs_in_scope [OF Cons.prems(1-3)] w by blast
  have w1: "wf_trav ?t1"
    using wf_rauw_before [OF Cons.prems(1,2) v w_in] .
  have d: "distinct (t_inputs t @ concat (map defs_node (passed t @ n # rest)))"
    and s: "scoped_nodes (set (t_inputs t)) (passed t @ n # rest)"
    using Cons.prems(1,2) by (simp_all add: wf_graph_of)
  have "?v \<notin> set (uses_node n)"
    using unused_before [OF d s v] by simp
  then have "rauw_node ?v ?w n = n"
    by (rule rauw_unused)
  then have p1: "pending ?t1 = n # map (rauw_node ?v ?w) rest"
    using Cons.prems(2) by simp
  have "wf_trav t' \<and> list_all wf_trav log' \<and> (\<exists>n' rest'. pending t' = n' # rest')"
    using Cons.IH [OF w1 p1 Cons.prems(3) run] .
  then show ?case
    using w1 log by simp
qed

lemma input_at_mem: "input_at n i = Inr a \<Longrightarrow> a \<in> set (inputs n)"
  by (auto simp: input_at_def split: if_splits)

lemma current_inputs_in_scope:
  assumes "wf_trav t" and "pending t = n # rest"
  shows "set (inputs n) \<subseteq> set (t_inputs t) \<union> set (top_defs (passed t))"
  using assms scoped_node_inputs [of "set (t_inputs t) \<union> set (top_defs (passed t))" n]
  by (simp add: wf_graph_of scoped_nodes_append)

lemma wf_advance [simp]: "wf_trav (advance t) = wf_trav t"
  by simp

lemma rauw_destroy_wf:
  assumes "wf_trav t" and "pending t = n # rest" and "output_of n = Inr out"
    and "w \<in> set (inputs n)" and "destroyCurrent (replaceAllUsesWith out w t) = Inr t'"
  shows "wf_trav (replaceAllUsesWith out w t) \<and> wf_trav t'"
proof -
  have "out \<in> set (outputs n)"
    using output_of_outputs [OF assms(3)] by simp
  moreover have "w \<in> set (t_inputs t) \<union> set (top_defs (passed t))"
    using current_inputs_in_scope [OF assms(1,2)] assms(4) by blast
  ultimately have "wf_trav (replaceAllUsesWith out w t)"
    using wf_rauw_before [OF assms(1,2)] by blast
  then show ?thesis
    using wf_destroyCurrent [OF _ assms(5)] by blast
qed

lemma fresh_node_after_insert:
  "fresh_node (insert_before m t) \<notin> nid ` set (passed t @ [m])"
  "fresh_node (insert_before m t) \<notin> nid ` set (pending t)"
  using fresh_node_not_top [of "insert_before m t"] by (simp_all add: insert_before_def)

lemma fresh_node_setType [simp]: "fresh_node (setType v tp t) = fresh_node t"
  by (simp add: fresh_node_def node_ids_def setType_def)

lemma fresh_value_setType [simp]: "fresh_value (setType v tp t) = fresh_value t"
  by (simp add: fresh_value_def uses_def defs_def setType_def)

lemma uses_setType [simp]: "uses (setType v tp t) = uses t"
  by (simp add: uses_def setType_def)

lemma defs_setType [simp]: "defs (setType v tp t) = defs t"
  by (simp add: defs_def setType_def)

lemma fields_setType [simp]:
  "passed (setType v tp t) = passed t" "t_inputs (setType v tp t) = t_inputs t"
  "t_outputs (setType v tp t) = t_outputs t"
  by (simp_all add: setType_def)

lemma fresh_value_new_app: "fresh_value t \<notin> set (t_inputs t @ uses t @ defs t)"
  using fresh_value_new [of t] by simp

lemma add_nonzero_wf:
  assumes "wf_trav t" and "pending t = n # rest" and "output_of n = Inr out"
    and "a \<in> set (inputs n)" and "b \<in> set (inputs n)"
    and "insertConstant 1 t = (cOne, t1)"
    and "insertNode_create aten_add t1 = ((add_node, add_output), t2)"
    and "t3 = addInput add_node a t2" and "t4 = addInput add_node b t3"
    and "t5 = addInput add_node cOne t4"
    and "t6 = setType add_output tp t5"
    and "t7 = replaceAllUsesWith out add_output t6"
    and "destroyCurrent t7 = Inr t8"
  shows "list_all wf_trav [t1, t2, t3, t4, t5, t6, t7, t8]"
proof -
  let ?c = "Node (fresh_node t) (prim_Constant 1) [] [cOne] []"
  let ?m = "Node add_node aten_add [] [add_output] []"
  let ?P = "passed t @ [?c]"
  have c: "cOne = fresh_value t" and t1: "t1 = setType cOne IntType (insert_before ?c t)"
    using assms(6) by (auto simp: insertConstant_def Let_def)
  have s: "add_output = fresh_value t1" and an: "add_node = fresh_node t1"
    and t2: "t2 = setType add_output (TensorType None) (insert_before ?m t1)"
    using assms(7) by (auto simp: insertNode_create_def Let_def)
  have w1: "wf_trav t1"
    using wf_insert_before [OF assms(1) fresh_value_new_app] by (simp add: t1 c)
  have w2: "wf_trav t2"
    using wf_insert_before [OF w1 fresh_value_new_app] by (simp add: t2 s)
  have p1: "passed t1 = ?P" "pending t1 = n # rest" "t_inputs t1 = t_inputs t"
    by (simp_all add: t1 insert_before_def assms(2))
  have p2: "passed t2 = ?P @ [?m]" "pending t2 = n # rest" "t_inputs t2 = t_inputs t"
    by (simp_all add: t2 insert_before_def p1)
  have i1: "add_node \<notin> nid ` set ?P" and i2: "add_node \<notin> nid ` set (n # rest)"
    using fresh_node_not_top [of t1] by (simp_all add: an p1)
  have scope: "set (inputs n) \<subseteq> set (t_inputs t) \<union> set (top_defs (passed t))"
    using current_inputs_in_scope [OF assms(1,2)] .
  have a: "a \<in> set (t_inputs t2) \<union> set (top_defs ?P)"
    and b: "b \<in> set (t_inputs t2) \<union> set (top_defs ?P)"
    and cc: "cOne \<in> set (t_inputs t2) \<union> set (top_defs ?P)"
    using scope assms(4,5) by (auto simp: p2)
  have nm: "nid ?m = add_node" by simp
  have w3: "wf_trav t3" and p3: "passed t3 = ?P @ [addInput_node a ?m]"
    "pending t3 = n # rest" "t_inputs t3 = t_inputs t"
    unfolding assms(8)
    using wf_addInput [OF w2 p2(1) nm i1 _ a] i2 by (simp_all add: p2)
  have nm3: "nid (addInput_node a ?m) = add_node" by simp
  have w4: "wf_trav t4" and p4: "passed t4 = ?P @ [addInput_node b (addInput_node a ?m)]"
    "pending t4 = n # rest" "t_inputs t4 = t_inputs t"
    unfolding assms(9)
    using wf_addInput [OF w3 p3(1) nm3 i1, of b] i2 b by (simp_all add: p2 p3)
  have nm4: "nid (addInput_node b (addInput_node a ?m)) = add_node" by simp
  have w5: "wf_trav t5"
    and p5: "passed t5 = ?P @ [addInput_node cOne (addInput_node b (addInput_node a ?m))]"
    "pending t5 = n # rest" "t_inputs t5 = t_inputs t"
    unfolding assms(10)
    using wf_addInput [OF w4 p4(1) nm4 i1, of cOne] i2 cc by (simp_all add: p2 p4)
  have w6: "wf_trav t6"
    using w5 by (simp add: assms(11))
  have p6: "pending t6 = n # rest"
    "add_output \<in> set (t_inputs t6) \<union> set (top_defs (passed t6))"
    by (simp_all add: assms(11) p5)
  have "out \<in> set (outputs n)"
    using output_of_outputs [OF assms(3)] by simp
  then have w7: "wf_trav t7"
    using wf_rauw_before [OF w6 p6(1) _ p6(2)] by (simp add: assms(12))
  have w8: "wf_trav t8"
    using wf_destroyCurrent [OF w7 assms(13)] .
  show ?thesis
    using w1 w2 w3 w4 w5 w6 w7 w8 by simp
qed

lemma visit_AutogradAdd_wf:
  assumes "wf_trav t" and "pending t = n # rest"
    and "visit_AutogradAdd n t st = Inr (log, t', st')"
  shows "wf_trav t' \<and> list_all wf_trav log"
proof -
  from assms(3) obtain a b where ab: "input_at n 0 = Inr a" "input_at n 1 = Inr b"
    by (auto simp: visit_AutogradAdd_def ebind_def split: sum.splits)
  from assms(3) obtain out where out: "output_of n = Inr out"
    using ab by (auto simp: visit_AutogradAdd_def ebind_def Let_def case_prod_beta
        split: sum.splits if_splits)
  note mem = input_at_mem [OF ab(1)] input_at_mem [OF ab(2)]
  consider (za) "state_at st a = Zero"
    | (zb) "state_at st a \<noteq> Zero" "state_at st b = Zero"
    | (nz) "state_at st a = Nonzero" "state_at st b = Nonzero"
    | (mixed) "state_at st a \<noteq> Zero" "state_at st b \<noteq> Zero"
        "\<not> (state_at st a = Nonzero \<and> state_at st b = Nonzero)"
    by (cases "state_at st a"; cases "state_at st b") auto
  then show ?thesis
  proof cases
    case za
    then have d: "destroyCurrent (replaceAllUsesWith out b t) = Inr t'"
      and l: "log = [replaceAllUsesWith out b t, t']"
      using assms(3) ab by (auto simp: visit_AutogradAdd_def ebind_def Let_def case_prod_beta out
          split: sum.splits)
    show ?thesis
      using rauw_destroy_wf [OF assms(1,2) out mem(2) d] l by simp
  next
    case zb
    then have d: "destroyCurrent (replaceAllUsesWith out a t) = Inr t'"
      and l: "log = [replaceAllUsesWith out a t, t']"
      using assms(3) ab by (auto simp: visit_AutogradAdd_def ebind_def Let_def case_prod_beta out
          split: sum.splits)
    show ?thesis
      using rauw_destroy_wf [OF assms(1,2) out mem(1) d] l by simp
  next
    case nz
    obtain cOne t1 where ic: "insertConstant 1 t = (cOne, t1)" by force
    obtain add_node add_output t2 where inn: "insertNode_create aten_add t1 = ((add_node, add_output), t2)"
      by (metis surj_pair)
    define t3 where "t3 = addInput add_node a t2"
    define t4 where "t4 = addInput add_node b t3"
    define t5 where "t5 = addInput add_node cOne t4"
    define t6 where "t6 = setType add_output (t_type t5 out) t5"
    define t7 where "t7 = replaceAllUsesWith out add_output t6"
    have d: "destroyCurrent t7 = Inr t'" and l: "log = [t1, t2, t3, t4, t5, t6, t7, t']"
      using assms(3) nz ab
      by (auto simp: visit_AutogradAdd_def ebind_def Let_def case_prod_beta out ic inn
          t3_def t4_def t5_def t6_def t7_def split: sum.splits)
    show ?thesis
      using add_nonzero_wf [OF assms(1,2) out mem ic inn t3_def t4_def t5_def t6_def t7_def d] l
      by simp
  next
    case mixed
    then have "t' = advance t" "log = []"
      using assms(3) ab by (auto simp: visit_AutogradAdd_def ebind_def Let_def case_prod_beta out)
    then show ?thesis using assms(1) by simp
  qed
qed

lemma ebind_Inr [simp]: "ebind (Inr x) f = f x"
  by (simp add: ebind_def)

lemma ebind_eq_Inr: "ebind m f = Inr y \<longleftrightarrow> (\<exists>x. m = Inr x \<and> f x = Inr y)"
  by (cases m) (simp_all add: ebind_def)

lemma visit_If_wf:
  assumes "wf_trav t" and "pending t = n # rest"
    and "visit_If n t st = Inr (log, t', st')"
  shows "wf_trav t' \<and> list_all wf_trav log"
proof -
  from assms(3) obtain c where c: "input_at n 0 = Inr c"
    unfolding visit_If_def ebind_eq_Inr by blast
  define fi where "fi = node_of t c"
  define az where "az = fst (all_of_state Zero st (inputs fi))"
  define st1 where "st1 = snd (all_of_state Zero st (inputs fi))"
  define an where "an = fst (all_of_state Nonzero st1 (inputs fi))"
  define st2 where "st2 = snd (all_of_state Nonzero st1 (inputs fi))"
  note defs = fi_def az_def an_def st1_def st2_def
  consider (plain) "kind fi \<noteq> prim_AutogradAnyNonZero"
    | (mixed) "kind fi = prim_AutogradAnyNonZero" "\<not> az" "\<not> an"
    | (zeros) "kind fi = prim_AutogradAnyNonZero" "az"
    | (nonzeros) "kind fi = prim_AutogradAnyNonZero" "\<not> az" "an"
    by blast
  then show ?thesis
  proof cases
    case plain
    then have "visit_If n t st = Inr ([], advance t, mark_outputs Unknown (outputs n) st)"
      using c by (simp add: visit_If_def fi_def)
    then show ?thesis using assms(1,3) by simp
  next
    case mixed
    then have "visit_If n t st = Inr ([], advance t, mark_outputs Unknown (outputs n) st2)"
      using c unfolding defs by (simp add: visit_If_def Let_def case_prod_beta)
    then show ?thesis using assms(1,3) by simp
  next
    case zeros
    define zero where "zero = fst (insertAutogradZero_after t)"
    define t1 where "t1 = snd (insertAutogradZero_after t)"
    let ?z = "Node (fresh_node t) prim_AutogradZero [] [zero] []"
    have z: "zero = fresh_value t" and t1: "t1 = setType zero (TensorType None) (insert_after ?z t)"
      by (simp_all add: zero_def t1_def insertAutogradZero_after_def Let_def)
    have w1: "wf_trav t1"
      using wf_insert_after [OF assms(1,2) fresh_value_new_app] by (simp add: t1 z)
    have p1: "pending t1 = n # ?z # rest"
      by (simp add: t1 insert_after_def assms(2) setType_def)
    define t2 where "t2 = snd (replace_each (outputs n) zero t1)"
    have "visit_If n t st = ebind (destroyCurrent t2)
               (\<lambda>t3. Inr (t1 # fst (replace_each (outputs n) zero t1) @ [t3], t3,
                          st2(zero \<mapsto> Zero)))"
      using c zeros unfolding defs t2_def zero_def t1_def
      by (simp add: visit_If_def Let_def case_prod_beta)
    with assms(3) have "ebind (destroyCurrent t2)
               (\<lambda>t3. Inr (t1 # fst (replace_each (outputs n) zero t1) @ [t3], t3,
                          st2(zero \<mapsto> Zero))) = Inr (log, t', st')"
      by simp
    then obtain t3 where "destroyCurrent t2 = Inr t3"
      and "Inr (t1 # fst (replace_each (outputs n) zero t1) @ [t3], t3, st2(zero \<mapsto> Zero))
           = (Inr (log, t', st') :: outcome)"
      unfolding ebind_eq_Inr by blast
    then have d: "destroyCurrent t2 = Inr t'"
      and l: "log = t1 # fst (replace_each (outputs n) zero t1) @ [t']"
      by auto
    have "wf_trav t2 \<and> list_all wf_trav (fst (replace_each (outputs n) zero t1))
         \<and> (\<exists>n' rest'. pending t2 = n' # rest')"
      unfolding t2_def by (rule replace_each_wf [OF w1 p1]) simp_all
    then show ?thesis
      using w1 l wf_destroyCurrent [OF _ d] by simp
  next
    case nonzeros
    have e: "visit_If n t st =
        (case blocks n of [] \<Rightarrow> Inl out_of_range
         | body # bs \<Rightarrow>
             ebind (inline_outputs [0..<length (outputs n)] (snd (hoist_nodes (bnodes body) t)) st2)
               (\<lambda>r. ebind (destroyCurrent (fst (snd r)))
                      (\<lambda>t3. Inr (fst (hoist_nodes (bnodes body) t) @ fst r @ [t3], t3,
                                 snd (snd r)))))"
      using c nonzeros unfolding defs
      by (cases "blocks n") (simp_all add: visit_If_def Let_def split_def)
    from e assms(3) obtain body bs where b: "blocks n = body # bs"
      by (cases "blocks n") simp_all
    define h where "h = hoist_nodes (bnodes body) t"
    from e assms(3) have "ebind (inline_outputs [0..<length (outputs n)] (snd h) st2)
               (\<lambda>r. ebind (destroyCurrent (fst (snd r)))
                      (\<lambda>t3. Inr (fst h @ fst r @ [t3], t3, snd (snd r))))
           = Inr (log, t', st')"
      by (simp add: b h_def)
    then obtain r t3 where
      i: "inline_outputs [0..<length (outputs n)] (snd h) st2 = Inr r"
      and d3: "destroyCurrent (fst (snd r)) = Inr t3"
      and "Inr (fst h @ fst r @ [t3], t3, snd (snd r)) = (Inr (log, t', st') :: outcome)"
      unfolding ebind_eq_Inr by blast
    then have d: "destroyCurrent (fst (snd r)) = Inr t'"
      and l: "log = fst h @ fst r @ [t']"
      by auto
    have i': "inline_outputs [0..<length (outputs n)] (snd h) st2
        = Inr (fst r, fst (snd r), snd (snd r))"
      using i by simp
    have b': "blocks n = Block (bnodes body) (boutputs body) # bs"
      using b by simp
    have hw: "wf_trav (snd h) \<and> list_all wf_trav (fst h)"
      unfolding h_def using hoist_nodes_wf [OF assms(1,2) b'] .
    have p1: "pending (snd h) = Node (nid n) (kind n) (inputs n) (outputs n)
        (Block [] (boutputs body) # bs) # rest"
      unfolding h_def using hoist_nodes_snd [OF assms(2) b'] by simp
    have "wf_trav (fst (snd r)) \<and> list_all wf_trav (fst r)
        \<and> (\<exists>n' rest'. pending (fst (snd r)) = n' # rest')"
      by (rule inline_outputs_wf [OF _ p1 _ i']) (use hw in simp_all)
    then show ?thesis
      using hw l wf_destroyCurrent [OF _ d] by simp
  qed
qed

lemma visit_AutogradZero_quiet:
  "visit_AutogradZero n t st = Inr (log, t', st') \<Longrightarrow> t' = advance t \<and> log = []"
  by (auto simp: visit_AutogradZero_def ebind_eq_Inr)

lemma visit_profile_quiet:
  "visit_profile n t st = Inr (log, t', st') \<Longrightarrow> t' = advance t \<and> log = []"
  by (auto simp: visit_profile_def ebind_eq_Inr split: if_splits)

lemma visit_guard_quiet:
  "visit_guard n t st = Inr (log, t', st') \<Longrightarrow> t' = advance t \<and> log = []"
  by (auto simp: visit_guard_def ebind_eq_Inr)

lemma visit_wf:
  assumes "wf_trav t" and "visit t st = Inr (log, t', st')"
  shows "wf_trav t' \<and> list_all wf_trav log"
proof (cases "pending t")
  case Nil
  then show ?thesis using assms by (simp add: visit_def)
next
  case (Cons n rest)
  have quiet: "t' = advance t \<and> log = [] \<Longrightarrow> ?thesis"
    using assms(1) by simp
  show ?thesis
  proof (cases "kind n")
    case prim_AutogradAdd
    then show ?thesis
      using visit_AutogradAdd_wf [OF assms(1) Cons] assms(2) Cons by (simp add: visit_def)
  next
    case prim_If
    then show ?thesis
      using visit_If_wf [OF assms(1) Cons] assms(2) Cons by (simp add: visit_def)
  next
    case prim_AutogradZero
    then show ?thesis
      using assms(2) Cons by (intro quiet visit_AutogradZero_quiet [of n t st]) (simp add: visit_def)
  next
    case prim_profile
    then show ?thesis
      using assms(2) Cons by (intro quiet visit_profile_quiet [of n t st]) (simp add: visit_def)
  next
    case prim_BailOut
    then show ?thesis
      using assms(2) Cons by (intro quiet visit_guard_quiet [of n t st]) (simp add: visit_def)
  next
    case prim_Guard
    then show ?thesis
      using assms(2) Cons by (intro quiet visit_guard_quiet [of n t st]) (simp add: visit_def)
  qed (use assms Cons in \<open>auto simp: visit_def\<close>)
qed

lemma loop_Inr:
  assumes "loop t st = Inr (log, t', st')" and "pending t \<noteq> []"
  shows "\<exists>l1 t1 st1 l2. visit t st = Inr (l1, t1, st1) \<and> loop t1 st1 = Inr (l2, t', st')
           \<and> log = l1 @ l2"
proof (cases "visit t st")
  case (Inl e)
  then show ?thesis
    using assms by (subst (asm) loop.simps) simp
next
  case (Inr r)
  obtain l1 t1 st1 where r: "r = (l1, t1, st1)"
    by (cases r) auto
  show ?thesis
  proof (cases "loop t1 st1")
    case (Inl e)
    then show ?thesis
      using assms Inr r by (subst (asm) loop.simps) simp
  next
    case (Inr q)
    obtain l2 t2 st2 where q: "q = (l2, t2, st2)"
      by (cases q) auto
    have "loop t st = Inr (l1 @ l2, t2, st2)"
      using assms(2) \<open>visit t st = Inr r\<close> r Inr q by (subst loop.simps) simp
    then show ?thesis
      using assms(1) \<open>visit t st = Inr r\<close> r Inr q by simp
  qed
qed

lemma loop_wf:
  "wf_trav t \<Longrightarrow> loop t st = Inr (log, t', st') \<Longrightarrow> wf_trav t' \<and> list_all wf_trav log"
proof (induction t st arbitrary: log t' st' rule: loop.induct)
  case (1 t st)
  show ?case
  proof (cases "pending t = []")
    case True
    then have "loop t st = Inr ([], t, st)"
      by (subst loop.simps) simp
    then show ?thesis using "1.prems" by simp
  next
    case False
    from loop_Inr [OF "1.prems"(2) False] obtain l1 t1 st1 l2
      where v: "visit t st = Inr (l1, t1, st1)"
      and r: "loop t1 st1 = Inr (l2, t', st')" and l: "log = l1 @ l2"
      by blast
    have w1: "wf_trav t1 \<and> list_all wf_trav l1"
      using visit_wf [OF "1.prems"(1) v] .
    then have "wf_trav t' \<and> list_all wf_trav l2"
      using "1.IH" [OF False v refl refl _ r] by simp
    then show ?thesis using w1 l by simp
  qed
qed

text \<open>
  Claim C9. When the pass runs to its end on a graph in which definitions precede uses
  (and every value has one definition), definitions precede uses in the resulting graph,
  and in the graph after every single mutation the pass performed (the record of the run).
\<close>

theorem ordering_is_preserved:
  assumes "well_formed g" and "specializeAutogradZero g = Inr (log, g')"
  shows "well_formed g' \<and> list_all well_formed log"
proof -
  from assms(2) obtain l t st where r: "loop (begin_trav g) (init_state g) = Inr (l, t, st)"
    and g': "g' = graph_of t" and log: "log = map graph_of l"
    by (auto simp: specializeAutogradZero_def split: sum.splits)
  have "graph_of (begin_trav g) = g"
    by (simp add: graph_of_def begin_trav_def)
  then have "wf_trav (begin_trav g)"
    using assms(1) by simp
  from loop_wf [OF this r] show ?thesis
    by (simp add: g' log list_all_iff)
qed

definition graph_both_rewrites :: graph where
  "graph_both_rewrites =
     \<lparr>ginputs = [2, 3, 4],
      gnodes = [Node 10 prim_AutogradAnyNonZero [2] [5] [],
                Node 11 prim_If [5] [6]
                  [Block [Node 12 (other_kind 0) [2] [7] []] [7],
                   Block [Node 13 prim_AutogradZero [] [8] []] [8]],
                Node 14 prim_AutogradAnyNonZero [3] [9] [],
                Node 15 prim_If [9] [20]
                  [Block [Node 16 (other_kind 0) [3] [21] []] [21],
                   Block [Node 17 prim_AutogradZero [] [22] []] [22]],
                Node 18 prim_AutogradAdd [6, 20] [23] [],
                Node 19 prim_AutogradAdd [23, 2] [24] []],
      goutputs = [24],
      vtype = (\<lambda>v. if v = 3 then TensorType (Some True) else TensorType (Some False))\<rparr>"


theorem ordering_is_preserved_witness:
  "well_formed graph_both_rewrites
   \<and> (case specializeAutogradZero graph_both_rewrites of
        Inl e \<Rightarrow> False
      | Inr (log, g') \<Rightarrow> log \<noteq> [] \<and> well_formed g' \<and> list_all well_formed log)"
proof -
  have w: "well_formed graph_both_rewrites"
    by code_simp
  have "case specializeAutogradZero graph_both_rewrites of
          Inl e \<Rightarrow> False | Inr (log, g') \<Rightarrow> log \<noteq> []"
    by code_simp
  then obtain log g' where r: "specializeAutogradZero graph_both_rewrites = Inr (log, g')"
    and l: "log \<noteq> []"
    by (auto split: sum.splits)
  show ?thesis
    using ordering_is_preserved [OF w r] w l by (simp add: r)
qed

section \<open>The run of the pass, visit by visit\<close>

text \<open>
  The cases of a visit that returns: what the visit of a guarded addition and of a
  conditional did, read off its result.
\<close>

lemma visit_AutogradAdd_cases:
  assumes "visit_AutogradAdd n t st = Inr (log, t', st')"
  obtains
    (dropped) a b out keep where "input_at n 0 = Inr a" "input_at n 1 = Inr b"
      "output_of n = Inr out" "state_at st a = Zero \<or> state_at st b = Zero"
      "keep = (if state_at st a = Zero then b else a)"
      "destroyCurrent (replaceAllUsesWith out keep t) = Inr t'"
      "log = [replaceAllUsesWith out keep t, t']"
      "\<forall>v. state_at st' v = state_at st v"
  | (plain) a b out cOne t1 add_node add_output t2 t3 t4 t5 t6 t7 where
      "input_at n 0 = Inr a" "input_at n 1 = Inr b" "output_of n = Inr out"
      "state_at st a = Nonzero" "state_at st b = Nonzero"
      "insertConstant 1 t = (cOne, t1)"
      "insertNode_create aten_add t1 = ((add_node, add_output), t2)"
      "t3 = addInput add_node a t2" "t4 = addInput add_node b t3"
      "t5 = addInput add_node cOne t4" "t6 = setType add_output (t_type t5 out) t5"
      "t7 = replaceAllUsesWith out add_output t6" "destroyCurrent t7 = Inr t'"
      "log = [t1, t2, t3, t4, t5, t6, t7, t']"
      "\<forall>v. v \<noteq> add_output \<longrightarrow> state_at st' v = state_at st v"
  | (kept) a b out where "input_at n 0 = Inr a" "input_at n 1 = Inr b"
      "output_of n = Inr out" "state_at st a \<noteq> Zero" "state_at st b \<noteq> Zero"
      "\<not> (state_at st a = Nonzero \<and> state_at st b = Nonzero)"
      "log = []" "t' = advance t"
      "st' = (snd (state_index (snd (state_index st a)) b))(out \<mapsto> Unknown)"
proof -
  from assms obtain a b where ab: "input_at n 0 = Inr a" "input_at n 1 = Inr b"
    unfolding visit_AutogradAdd_def ebind_eq_Inr by auto
  from assms obtain out where out: "output_of n = Inr out"
    using ab by (auto simp: visit_AutogradAdd_def ebind_eq_Inr Let_def case_prod_beta
        split: if_splits)
  consider (za) "state_at st a = Zero"
    | (zb) "state_at st a \<noteq> Zero" "state_at st b = Zero"
    | (nz) "state_at st a = Nonzero" "state_at st b = Nonzero"
    | (mixed) "state_at st a \<noteq> Zero" "state_at st b \<noteq> Zero"
        "\<not> (state_at st a = Nonzero \<and> state_at st b = Nonzero)"
    by (cases "state_at st a"; cases "state_at st b") auto
  then show ?thesis
  proof cases
    case za
    then have "destroyCurrent (replaceAllUsesWith out b t) = Inr t'"
      "log = [replaceAllUsesWith out b t, t']" "st' = snd (state_index st a)"
      using assms ab out
      by (auto simp: visit_AutogradAdd_def ebind_eq_Inr Let_def case_prod_beta)
    then show ?thesis
      using za ab out by (intro dropped [of a b out b]) simp_all
  next
    case zb
    then have "destroyCurrent (replaceAllUsesWith out a t) = Inr t'"
      "log = [replaceAllUsesWith out a t, t']"
      "st' = snd (state_index (snd (state_index st a)) b)"
      using assms ab out
      by (auto simp: visit_AutogradAdd_def ebind_eq_Inr Let_def case_prod_beta)
    then show ?thesis
      using zb ab out by (intro dropped [of a b out a]) simp_all
  next
    case nz
    obtain cOne t1 where ic: "insertConstant 1 t = (cOne, t1)" by force
    obtain add_node add_output t2 where
      inn: "insertNode_create aten_add t1 = ((add_node, add_output), t2)"
      by (metis surj_pair)
    define t3 where "t3 = addInput add_node a t2"
    define t4 where "t4 = addInput add_node b t3"
    define t5 where "t5 = addInput add_node cOne t4"
    define t6 where "t6 = setType add_output (t_type t5 out) t5"
    define t7 where "t7 = replaceAllUsesWith out add_output t6"
    have "destroyCurrent t7 = Inr t'" "log = [t1, t2, t3, t4, t5, t6, t7, t']"
      "st' = (snd (state_index (snd (state_index st a)) b))(add_output \<mapsto> Nonzero)"
      using assms nz ab out
      by (auto simp: visit_AutogradAdd_def ebind_eq_Inr Let_def case_prod_beta ic inn
          t3_def t4_def t5_def t6_def t7_def)
    then show ?thesis
      using nz ab out ic inn t3_def t4_def t5_def t6_def t7_def
      by (intro plain [of a b out cOne t1 add_node add_output t2 t3 t4 t5 t6 t7]) simp_all
  next
    case mixed
    then have "t' = advance t" "log = []"
      "st' = (snd (state_index (snd (state_index st a)) b))(out \<mapsto> Unknown)"
      using assms ab out
      by (auto simp: visit_AutogradAdd_def ebind_eq_Inr Let_def case_prod_beta)
    then show ?thesis
      using mixed ab out by (intro kept [of a b out]) simp_all
  qed
qed

lemma visit_If_cases:
  assumes "visit_If n t st = Inr (log, t', st')"
  obtains
    (untouched) c where "input_at n 0 = Inr c"
      "kind (node_of t c) \<noteq> prim_AutogradAnyNonZero
       \<or> (\<not> list_all (\<lambda>v. state_at st v = Zero) (inputs (node_of t c))
          \<and> \<not> list_all (\<lambda>v. state_at st v = Nonzero) (inputs (node_of t c)))"
      "log = []" "t' = advance t"
      "\<forall>v. state_at st' v = (if v \<in> set (outputs n) then Unknown else state_at st v)"
  | (collapsed) c zero t1 t2 where "input_at n 0 = Inr c"
      "kind (node_of t c) = prim_AutogradAnyNonZero"
      "list_all (\<lambda>v. state_at st v = Zero) (inputs (node_of t c))"
      "insertAutogradZero_after t = (zero, t1)"
      "t2 = snd (replace_each (outputs n) zero t1)" "destroyCurrent t2 = Inr t'"
      "log = t1 # fst (replace_each (outputs n) zero t1) @ [t']"
      "\<forall>v. v \<noteq> zero \<longrightarrow> state_at st' v = state_at st v"
  | (inlined) c body bs st2 log2 t2 where "input_at n 0 = Inr c"
      "kind (node_of t c) = prim_AutogradAnyNonZero"
      "\<not> list_all (\<lambda>v. state_at st v = Zero) (inputs (node_of t c))"
      "list_all (\<lambda>v. state_at st v = Nonzero) (inputs (node_of t c))"
      "blocks n = body # bs"
      "inline_outputs [0..<length (outputs n)] (snd (hoist_nodes (bnodes body) t)) st2
         = Inr (log2, t2, st')"
      "\<forall>v. state_at st2 v = state_at st v"
      "destroyCurrent t2 = Inr t'"
      "log = fst (hoist_nodes (bnodes body) t) @ log2 @ [t']"
proof -
  from assms obtain c where c: "input_at n 0 = Inr c"
    unfolding visit_If_def ebind_eq_Inr by blast
  define fi where "fi = node_of t c"
  define az where "az = fst (all_of_state Zero st (inputs fi))"
  define st1 where "st1 = snd (all_of_state Zero st (inputs fi))"
  define an where "an = fst (all_of_state Nonzero st1 (inputs fi))"
  define st2 where "st2 = snd (all_of_state Nonzero st1 (inputs fi))"
  note defs = fi_def az_def an_def st1_def st2_def
  have az: "az = list_all (\<lambda>v. state_at st v = Zero) (inputs fi)"
    and an: "an = list_all (\<lambda>v. state_at st v = Nonzero) (inputs fi)"
    and s2: "\<forall>v. state_at st2 v = state_at st v"
    by (simp_all add: defs all_of_state_fst)
  consider (plain) "kind fi \<noteq> prim_AutogradAnyNonZero"
    | (mixed) "kind fi = prim_AutogradAnyNonZero" "\<not> az" "\<not> an"
    | (zeros) "kind fi = prim_AutogradAnyNonZero" "az"
    | (nonzeros) "kind fi = prim_AutogradAnyNonZero" "\<not> az" "an"
    by blast
  then show ?thesis
  proof cases
    case plain
    then have "visit_If n t st = Inr ([], advance t, mark_outputs Unknown (outputs n) st)"
      using c by (simp add: visit_If_def fi_def)
    then show ?thesis
      using assms plain c by (intro untouched [of c]) (simp_all add: fi_def mark_outputs_at)
  next
    case mixed
    then have "visit_If n t st = Inr ([], advance t, mark_outputs Unknown (outputs n) st2)"
      using c unfolding defs by (simp add: visit_If_def Let_def case_prod_beta)
    then show ?thesis
      using assms mixed c s2 az an
      by (intro untouched [of c]) (simp_all add: fi_def mark_outputs_at)
  next
    case zeros
    define zero where "zero = fst (insertAutogradZero_after t)"
    define t1 where "t1 = snd (insertAutogradZero_after t)"
    define t2 where "t2 = snd (replace_each (outputs n) zero t1)"
    have "visit_If n t st = ebind (destroyCurrent t2)
               (\<lambda>t3. Inr (t1 # fst (replace_each (outputs n) zero t1) @ [t3], t3,
                          st2(zero \<mapsto> Zero)))"
      using c zeros unfolding defs t2_def zero_def t1_def
      by (simp add: visit_If_def Let_def case_prod_beta)
    with assms have "ebind (destroyCurrent t2)
               (\<lambda>t3. Inr (t1 # fst (replace_each (outputs n) zero t1) @ [t3], t3,
                          st2(zero \<mapsto> Zero))) = Inr (log, t', st')"
      by simp
    then obtain t3 where "destroyCurrent t2 = Inr t3"
      and "Inr (t1 # fst (replace_each (outputs n) zero t1) @ [t3], t3, st2(zero \<mapsto> Zero))
           = (Inr (log, t', st') :: outcome)"
      unfolding ebind_eq_Inr by blast
    then have "destroyCurrent t2 = Inr t'"
      "log = t1 # fst (replace_each (outputs n) zero t1) @ [t']" "st' = st2(zero \<mapsto> Zero)"
      by auto
    then show ?thesis
      using zeros c s2 az
      by (intro collapsed [of c zero t1 t2]) (simp_all add: fi_def zero_def t1_def t2_def)
  next
    case nonzeros
    have e: "visit_If n t st =
        (case blocks n of [] \<Rightarrow> Inl out_of_range
         | body # bs \<Rightarrow>
             ebind (inline_outputs [0..<length (outputs n)] (snd (hoist_nodes (bnodes body) t)) st2)
               (\<lambda>r. ebind (destroyCurrent (fst (snd r)))
                      (\<lambda>t3. Inr (fst (hoist_nodes (bnodes body) t) @ fst r @ [t3], t3,
                                 snd (snd r)))))"
      using c nonzeros unfolding defs
      by (cases "blocks n") (simp_all add: visit_If_def Let_def split_def)
    from e assms obtain body bs where b: "blocks n = body # bs"
      by (cases "blocks n") simp_all
    define h where "h = hoist_nodes (bnodes body) t"
    from e assms have "ebind (inline_outputs [0..<length (outputs n)] (snd h) st2)
               (\<lambda>r. ebind (destroyCurrent (fst (snd r)))
                      (\<lambda>t3. Inr (fst h @ fst r @ [t3], t3, snd (snd r))))
           = Inr (log, t', st')"
      by (simp add: b h_def)
    then obtain r t3 where
      i: "inline_outputs [0..<length (outputs n)] (snd h) st2 = Inr r"
      and d3: "destroyCurrent (fst (snd r)) = Inr t3"
      and "Inr (fst h @ fst r @ [t3], t3, snd (snd r)) = (Inr (log, t', st') :: outcome)"
      unfolding ebind_eq_Inr by blast
    then have d: "destroyCurrent (fst (snd r)) = Inr t'"
      and l: "log = fst h @ fst r @ [t']" and s: "snd (snd r) = st'"
      by auto
    have i': "inline_outputs [0..<length (outputs n)] (snd h) st2
        = Inr (fst r, fst (snd r), st')"
      using i s by auto
    show ?thesis
      using nonzeros c s2 az an b i' d l
      by (intro inlined [of c body bs st2 "fst r" "fst (snd r)"]) (simp_all add: fi_def h_def)
  qed
qed

lemma visit_quiet_shape:
  assumes "visit t st = Inr ([], t', st')" and "pending t = n # rest"
  shows "t' = advance t"
proof (cases "kind n")
  case prim_AutogradAdd
  then have "visit_AutogradAdd n t st = Inr ([], t', st')"
    using assms by (simp add: visit_def)
  then show ?thesis
    by (cases rule: visit_AutogradAdd_cases) simp_all
next
  case prim_If
  then have "visit_If n t st = Inr ([], t', st')"
    using assms by (simp add: visit_def)
  then show ?thesis
    by (cases rule: visit_If_cases) simp_all
next
  case prim_AutogradZero
  then show ?thesis
    using assms visit_AutogradZero_quiet [of n t st "[]" t' st'] by (simp add: visit_def)
next
  case prim_profile
  then show ?thesis
    using assms visit_profile_quiet [of n t st "[]" t' st'] by (simp add: visit_def)
next
  case prim_BailOut
  then show ?thesis
    using assms visit_guard_quiet [of n t st "[]" t' st'] by (simp add: visit_def)
next
  case prim_Guard
  then show ?thesis
    using assms visit_guard_quiet [of n t st "[]" t' st'] by (simp add: visit_def)
qed (use assms in \<open>auto simp: visit_def\<close>)



lemma visit_log_last:
  assumes "visit t st = Inr (log, t', st')"
  shows "graph_of (last (t # log)) = graph_of t'"
proof (cases "pending t")
  case Nil
  then show ?thesis using assms by (simp add: visit_def)
next
  case (Cons n rest)
  show ?thesis
  proof (cases "log = []")
    case True
    then show ?thesis
      using visit_quiet_shape [OF _ Cons, of st t' st'] assms by simp
  next
    case False
    have "last log = t'"
    proof (cases "kind n")
      case prim_AutogradAdd
      then have "visit_AutogradAdd n t st = Inr (log, t', st')"
        using assms Cons by (simp add: visit_def)
      then show ?thesis
        using False by (cases rule: visit_AutogradAdd_cases) simp_all
    next
      case prim_If
      then have "visit_If n t st = Inr (log, t', st')"
        using assms Cons by (simp add: visit_def)
      then show ?thesis
        using False by (cases rule: visit_If_cases) simp_all
    next
      case prim_AutogradZero
      then show ?thesis
        using assms Cons False visit_AutogradZero_quiet [of n t st log t' st'] by (simp add: visit_def)
    next
      case prim_profile
      then show ?thesis
        using assms Cons False visit_profile_quiet [of n t st log t' st'] by (simp add: visit_def)
    next
      case prim_BailOut
      then show ?thesis
        using assms Cons False visit_guard_quiet [of n t st log t' st'] by (simp add: visit_def)
    next
      case prim_Guard
      then show ?thesis
        using assms Cons False visit_guard_quiet [of n t st log t' st'] by (simp add: visit_def)
    qed (use assms Cons False in \<open>auto simp: visit_def\<close>)
    then show ?thesis using False by simp
  qed
qed

text \<open>
  The iterations of the loop of line 38: the graph with the place of the iterator, and the
  classification mapping, each time the loop condition is tested.
\<close>

function states :: "trav \<Rightarrow> smap \<Rightarrow> (trav \<times> smap) list" where
  "states t st =
     (t, st) #
     (if pending t = [] then []
      else case visit t st of
             Inl e \<Rightarrow> []
           | Inr (log, t1, st1) \<Rightarrow> states t1 st1)"
  by pat_completeness auto
termination
  by (relation "measure (\<lambda>(t, st). weight (pending t))") (auto simp: visit_weight)

declare states.simps [simp del]

lemma states_done: "pending t = [] \<Longrightarrow> states t st = [(t, st)]"
  by (subst states.simps) simp

lemma states_step:
  "pending t \<noteq> [] \<Longrightarrow> visit t st = Inr (log, t1, st1) \<Longrightarrow>
   states t st = (t, st) # states t1 st1"
  by (subst states.simps) simp

lemma states_self: "(t, st) \<in> set (states t st)"
  by (subst states.simps) simp

text \<open>
  The record of the run from a state the loop goes through is the rest of the record of
  the whole run, and the graph of that state is the last graph recorded before.
\<close>

lemma loop_through:
  assumes "(u, su) \<in> set (states t st)" and "loop t st = Inr (log, tf, sf)"
  shows "\<exists>pre post. log = pre @ post \<and> loop u su = Inr (post, tf, sf)
           \<and> graph_of (last (t # pre)) = graph_of u
           \<and> set (states u su) \<subseteq> set (states t st)"
  using assms
proof (induction t st arbitrary: log rule: loop.induct)
  case (1 t st)
  show ?case
  proof (cases "(u, su) = (t, st)")
    case True
    then show ?thesis
      using "1.prems"(2) by (intro exI [of _ "[]"] exI [of _ log]) simp
  next
    case False
    show ?thesis
    proof (cases "pending t = []")
      case True
      then show ?thesis
        using "1.prems"(1) False by (simp add: states_done)
    next
      case ne: False
      from loop_Inr [OF "1.prems"(2) ne] obtain l1 t1 st1 l2
        where v: "visit t st = Inr (l1, t1, st1)"
        and r: "loop t1 st1 = Inr (l2, tf, sf)" and l: "log = l1 @ l2"
        by blast
      have s: "states t st = (t, st) # states t1 st1"
        using states_step [OF ne v] .
      have m: "(u, su) \<in> set (states t1 st1)"
        using "1.prems"(1) False unfolding s by auto
      from "1.IH" [OF ne v refl refl m r]
      obtain pre post where ih: "l2 = pre @ post" "loop u su = Inr (post, tf, sf)"
        "graph_of (last (t1 # pre)) = graph_of u"
        "set (states u su) \<subseteq> set (states t1 st1)"
        by blast
      have "graph_of (last (t # l1 @ pre)) = graph_of u"
      proof (cases "pre = []")
        case True
        then show ?thesis
          using ih(3) visit_log_last [OF v] by simp
      next
        case False
        then show ?thesis using ih(3) by simp
      qed
      then show ?thesis
        using ih l s by (intro exI [of _ "l1 @ pre"] exI [of _ post]) auto
    qed
  qed
qed

text \<open>
  What a visit the loop makes contributes to the result of the pass: the graphs the visit
  records are in the record of the pass, right after the graph the visit started on, and
  the loop goes on from the state the visit ends in.
\<close>

lemma pass_visit:
  assumes "specializeAutogradZero g = Inr (log, g')"
    and "(t, st) \<in> set (states (begin_trav g) (init_state g))"
    and "pending t \<noteq> []" and "visit t st = Inr (vlog, t', st')"
  shows "(\<exists>pre post. log = pre @ map graph_of vlog @ post \<and> last (g # pre) = graph_of t)
         \<and> (t', st') \<in> set (states (begin_trav g) (init_state g))"
proof -
  from assms(1) obtain l tf sf where r: "loop (begin_trav g) (init_state g) = Inr (l, tf, sf)"
    and log: "log = map graph_of l"
    by (auto simp: specializeAutogradZero_def split: sum.splits)
  from loop_through [OF assms(2) r]
  obtain pre post where p: "l = pre @ post" "loop t st = Inr (post, tf, sf)"
    "graph_of (last (begin_trav g # pre)) = graph_of t"
    "set (states t st) \<subseteq> set (states (begin_trav g) (init_state g))"
    by blast
  from loop_Inr [OF p(2) assms(3)] assms(4) obtain l2 where post: "post = vlog @ l2"
    by auto
  have g0: "graph_of (begin_trav g) = g"
    by (simp add: graph_of_def begin_trav_def)
  have "last (g # map graph_of pre) = graph_of t"
    using p(3) g0 by (cases "pre = []") (simp_all add: last_map)
  moreover have "(t', st') \<in> set (states t st)"
    using states_step [OF assms(3,4)] states_self [of t' st'] by simp
  ultimately show ?thesis
    using p(1,4) post log
    by (intro conjI exI [of _ "map graph_of pre"] exI [of _ "map graph_of l2"]) auto
qed

section \<open>The rewrites of the pass\<close>

text \<open>
  The statements below are about a node the pass reaches: \<open>(t, st)\<close> is one of the states
  the loop goes through on the graph \<open>g\<close>, the node is the one the iterator points to in
  \<open>t\<close>, and \<open>st\<close> is the classification at that moment. What the pass did to the node is
  read in the record the pass returns.
\<close>

text \<open>
  Claim C3. When the pass reaches a guarded addition with output \<open>out\<close> whose first
  operand is classified \<open>Zero\<close>, it replaces all uses of \<open>out\<close> by the second operand and
  deletes the node; when the first operand is not \<open>Zero\<close> but the second is, it replaces
  them by the first operand and deletes the node. The two graphs are in the record of the
  pass right after the graph in which the node was reached, and the loop goes on from the
  second one with the classification of every value as before. In that graph \<open>out\<close> has
  no use and no node has the address of the addition. The operand that is kept is not the
  output of the node itself, and no other node has the address of the addition.
\<close>

theorem add_with_zero_is_dropped:
  assumes "specializeAutogradZero g = Inr (log, g')"
    and "(t, st) \<in> set (states (begin_trav g) (init_state g))"
    and "pending t = n # rest" and "kind n = prim_AutogradAdd"
    and "input_at n 0 = Inr a" and "input_at n 1 = Inr b" and "output_of n = Inr out"
    and "state_at st a = Zero \<or> state_at st b = Zero"
    and "keep = (if state_at st a = Zero then b else a)"
    and "out \<noteq> keep"
    and "nid n \<notin> set (concat (map ids_node (passed t @ rest)))"
    and "t' = (replaceAllUsesWith out keep t)\<lparr>pending := map (rauw_node out keep) rest\<rparr>"
  shows "(\<exists>pre post. log = pre @ [graph_of (replaceAllUsesWith out keep t), graph_of t'] @ post
            \<and> last (g # pre) = graph_of t)
         \<and> (\<exists>st'. (t', st') \<in> set (states (begin_trav g) (init_state g))
               \<and> (\<forall>v. state_at st' v = state_at st v))
         \<and> gnodes (graph_of t') = map (rauw_node out keep) (passed t @ rest)
         \<and> goutputs (graph_of t') = map (subst out keep) (t_outputs t)
         \<and> out \<notin> set (uses t')
         \<and> nid n \<notin> set (node_ids t')"
proof -
  note v = visit_add_with_zero [OF assms(3-12)]
  from v obtain st' where
    run: "visit t st = Inr ([replaceAllUsesWith out keep t, t'], t', st')"
    and same: "\<forall>v. state_at st' v = state_at st v"
    by blast
  have ne: "pending t \<noteq> []"
    using assms(3) by simp
  from pass_visit [OF assms(1,2) ne run]
  have "(\<exists>pre post. log = pre @ [graph_of (replaceAllUsesWith out keep t), graph_of t'] @ post
            \<and> last (g # pre) = graph_of t)"
    and "(t', st') \<in> set (states (begin_trav g) (init_state g))"
    by simp_all
  then show ?thesis
    using v same by blast
qed

text \<open>
  Claim C4. When the pass reaches a guarded addition of two operands that are both
  classified \<open>Nonzero\<close>, it replaces the node by an ordinary addition: right before the
  place of the node it puts a constant 1 and an \<open>aten::add\<close> of the two operands and that
  constant, gives the new output the type of the old output, classifies it \<open>Nonzero\<close>,
  replaces all uses of the old output by the new one and deletes the guarded addition.
  The eight graphs of these mutations are in the record of the pass right after the graph
  in which the node was reached, and the loop goes on from the last one. The operands are
  not the output of the node itself, and no other node has the address of the addition.
\<close>

theorem add_of_nonzeros_becomes_plain_add:
  assumes "specializeAutogradZero g = Inr (log, g')"
    and "(t, st) \<in> set (states (begin_trav g) (init_state g))"
    and "pending t = n # rest" and "kind n = prim_AutogradAdd"
    and "input_at n 0 = Inr a" and "input_at n 1 = Inr b" and "output_of n = Inr out"
    and "state_at st a = Nonzero" and "state_at st b = Nonzero"
    and "a \<noteq> out" and "b \<noteq> out"
    and "nid n \<notin> set (concat (map ids_node (passed t @ rest)))"
    and "cOne = fresh_value t" and "t1 = snd (insertConstant 1 t)"
    and "add_output = fresh_value t1"
    and "new_nodes = [Node (fresh_node t) (prim_Constant 1) [] [cOne] [],
                      Node (fresh_node t1) aten_add [a, b, cOne] [add_output] []]"
    and "t' = \<lparr>t_inputs = t_inputs t,
               passed = map (rauw_node out add_output) (passed t) @ new_nodes,
               pending = map (rauw_node out add_output) rest,
               t_outputs = map (subst out add_output) (t_outputs t),
               t_type = (t_type t)(cOne := IntType, add_output := t_type t out)\<rparr>"
  shows "(\<exists>pre vlog post. log = pre @ vlog @ post \<and> length vlog = 8
            \<and> last vlog = graph_of t' \<and> last (g # pre) = graph_of t)
         \<and> (\<exists>st'. (t', st') \<in> set (states (begin_trav g) (init_state g))
               \<and> state_at st' add_output = Nonzero
               \<and> (\<forall>v. v \<noteq> add_output \<longrightarrow> state_at st' v = state_at st v))
         \<and> t_type t' add_output = t_type t out
         \<and> add_output \<notin> set (t_inputs t @ uses t @ defs t)
         \<and> out \<notin> set (uses t')
         \<and> nid n \<notin> set (node_ids t')"
proof -
  note v = visit_add_of_nonzeros [OF assms(3-17)]
  from v obtain vlog st' where
    run: "visit t st = Inr (vlog, t', st')" and len: "length vlog = 8" "last vlog = t'"
    and st': "state_at st' add_output = Nonzero"
      "\<forall>v. v \<noteq> add_output \<longrightarrow> state_at st' v = state_at st v"
    by blast
  have ne: "pending t \<noteq> []"
    using assms(3) by simp
  have vne: "vlog \<noteq> []"
    using len(1) by auto
  from pass_visit [OF assms(1,2) ne run]
  obtain pre post where p: "log = pre @ map graph_of vlog @ post" "last (g # pre) = graph_of t"
    and m: "(t', st') \<in> set (states (begin_trav g) (init_state g))"
    by blast
  have "last (map graph_of vlog) = graph_of t'"
    using vne len(2) by (simp add: last_map)
  then have "\<exists>pre vlog post. log = pre @ vlog @ post \<and> length vlog = 8
            \<and> last vlog = graph_of t' \<and> last (g # pre) = graph_of t"
    using p len(1) by (intro exI [of _ pre] exI [of _ "map graph_of vlog"] exI [of _ post]) simp
  then show ?thesis
    using v m st' by blast
qed

text \<open>
  Claim C6. When the pass reaches a conditional whose condition comes from an any-nonzero
  test whose operands are all classified \<open>Zero\<close>, it puts one zero producer right after
  the conditional, classifies its output \<open>Zero\<close>, replaces every output of the conditional
  by that value and deletes the conditional. The graphs of these mutations are in the
  record of the pass right after the graph in which the conditional was reached, the
  first one being the graph with the zero producer; the loop goes on from the last one,
  in which no output of the conditional has a use, no node has the address of the
  conditional, and the zero producer stands where the conditional stood.
\<close>

theorem all_zero_conditional_collapses:
  assumes "specializeAutogradZero g = Inr (log, g')"
    and "(t, st) \<in> set (states (begin_trav g) (init_state g))"
    and "pending t = n # rest" and "kind n = prim_If"
    and "input_at n 0 = Inr c" and "kind (node_of t c) = prim_AutogradAnyNonZero"
    and "list_all (\<lambda>v. state_at st v = Zero) (inputs (node_of t c))"
    and "nid n \<notin> set (concat (map ids_node (passed t @ rest)))"
    and "zero = fresh_value t"
    and "zero_node = Node (fresh_node t) prim_AutogradZero [] [zero] []"
    and "ps = map (\<lambda>v. (v, zero)) (outputs n)"
    and "t' = \<lparr>t_inputs = t_inputs t,
               passed = map (rauw_nodes ps) (passed t),
               pending = zero_node # map (rauw_nodes ps) rest,
               t_outputs = map (replace_uses ps) (t_outputs t),
               t_type = (t_type t)(zero := TensorType None)\<rparr>"
  shows "(\<exists>pre vlog post. log = pre @ vlog @ post \<and> vlog \<noteq> []
            \<and> hd vlog = graph_of (t\<lparr>pending := n # zero_node # rest,
                                     t_type := (t_type t)(zero := TensorType None)\<rparr>)
            \<and> last vlog = graph_of t' \<and> last (g # pre) = graph_of t)
         \<and> (\<exists>st'. (t', st') \<in> set (states (begin_trav g) (init_state g))
               \<and> state_at st' zero = Zero
               \<and> (\<forall>v. v \<noteq> zero \<longrightarrow> state_at st' v = state_at st v))
         \<and> zero \<notin> set (t_inputs t @ uses t @ defs t)
         \<and> list_all (\<lambda>x. replace_uses ps x = zero) (outputs n)
         \<and> set (outputs n) \<inter> set (uses t') = {}
         \<and> nid n \<notin> set (node_ids t')"
proof -
  note v = visit_all_zero_conditional [OF assms(3-12)]
  from v obtain vlog st' where
    run: "visit t st = Inr (vlog, t', st')" and vne: "vlog \<noteq> []"
    and ends: "hd vlog = t\<lparr>pending := n # zero_node # rest,
                           t_type := (t_type t)(zero := TensorType None)\<rparr>" "last vlog = t'"
    and st': "state_at st' zero = Zero" "\<forall>v. v \<noteq> zero \<longrightarrow> state_at st' v = state_at st v"
    by blast
  have ne: "pending t \<noteq> []"
    using assms(3) by simp
  from pass_visit [OF assms(1,2) ne run]
  obtain pre post where p: "log = pre @ map graph_of vlog @ post" "last (g # pre) = graph_of t"
    and m: "(t', st') \<in> set (states (begin_trav g) (init_state g))"
    by blast
  have "last (map graph_of vlog) = graph_of t'"
    "hd (map graph_of vlog) = graph_of (t\<lparr>pending := n # zero_node # rest,
                                     t_type := (t_type t)(zero := TensorType None)\<rparr>)"
    using vne ends by (simp_all add: last_map hd_map)
  then have "\<exists>pre vlog post. log = pre @ vlog @ post \<and> vlog \<noteq> []
            \<and> hd vlog = graph_of (t\<lparr>pending := n # zero_node # rest,
                                     t_type := (t_type t)(zero := TensorType None)\<rparr>)
            \<and> last vlog = graph_of t' \<and> last (g # pre) = graph_of t"
    using p vne by (intro exI [of _ pre] exI [of _ "map graph_of vlog"] exI [of _ post]) simp
  then show ?thesis
    using v m st' by blast
qed

text \<open>
  Claim C7, as amended. When the pass reaches a conditional whose condition comes from an
  any-nonzero test with at least one operand, all of them classified \<open>Nonzero\<close>, it moves
  the nodes of the first block before the conditional, in their order, replaces the
  outputs of the conditional one for one by the outputs of that block, classifies these
  \<open>Nonzero\<close> and deletes the conditional. The graphs of these mutations are in the record
  of the pass right after the graph in which the conditional was reached, and the loop
  goes on from the last one. The block has an output for every output of the conditional,
  and the outputs of the conditional are distinct values that are not outputs of the block.
\<close>

theorem all_nonzero_conditional_is_inlined:
  assumes "specializeAutogradZero g = Inr (log, g')"
    and "(t, st) \<in> set (states (begin_trav g) (init_state g))"
    and "pending t = n # rest" and "kind n = prim_If"
    and "input_at n 0 = Inr c" and "kind (node_of t c) = prim_AutogradAnyNonZero"
    and "inputs (node_of t c) \<noteq> []"
    and "list_all (\<lambda>v. state_at st v = Nonzero) (inputs (node_of t c))"
    and "blocks n = Block body_nodes body_outputs # bs"
    and "length (outputs n) \<le> length body_outputs"
    and "set (outputs n) \<inter> set body_outputs = {}"
    and "distinct (outputs n)"
    and "nid n \<notin> set (concat (map ids_node (passed t @ body_nodes @ rest)))"
    and "ps = zip (outputs n) body_outputs"
    and "t' = \<lparr>t_inputs = t_inputs t,
               passed = map (rauw_nodes ps) (passed t @ body_nodes),
               pending = map (rauw_nodes ps) rest,
               t_outputs = map (replace_uses ps) (t_outputs t),
               t_type = t_type t\<rparr>"
  shows "(\<exists>pre vlog post. log = pre @ vlog @ post \<and> vlog \<noteq> []
            \<and> last vlog = graph_of t' \<and> last (g # pre) = graph_of t)
         \<and> (\<exists>st'. (t', st') \<in> set (states (begin_trav g) (init_state g))
               \<and> list_all (\<lambda>v. state_at st' v = Nonzero) (take (length (outputs n)) body_outputs)
               \<and> (\<forall>v. v \<notin> set (take (length (outputs n)) body_outputs)
                     \<longrightarrow> state_at st' v = state_at st v))
         \<and> map (replace_uses ps) (outputs n) = take (length (outputs n)) body_outputs
         \<and> set (outputs n) \<inter> set (uses t') = {}
         \<and> nid n \<notin> set (node_ids t')"
proof -
  note v = visit_all_nonzero_conditional [OF assms(3-15)]
  from v obtain vlog st' where
    run: "visit t st = Inr (vlog, t', st')" and vne: "vlog \<noteq> []" and ends: "last vlog = t'"
    and st': "list_all (\<lambda>v. state_at st' v = Nonzero) (take (length (outputs n)) body_outputs)"
      "\<forall>v. v \<notin> set (take (length (outputs n)) body_outputs) \<longrightarrow> state_at st' v = state_at st v"
    by blast
  have ne: "pending t \<noteq> []"
    using assms(3) by simp
  from pass_visit [OF assms(1,2) ne run]
  obtain pre post where p: "log = pre @ map graph_of vlog @ post" "last (g # pre) = graph_of t"
    and m: "(t', st') \<in> set (states (begin_trav g) (init_state g))"
    by blast
  have "last (map graph_of vlog) = graph_of t'"
    using vne ends by (simp add: last_map)
  then have "\<exists>pre vlog post. log = pre @ vlog @ post \<and> vlog \<noteq> []
            \<and> last vlog = graph_of t' \<and> last (g # pre) = graph_of t"
    using p vne by (intro exI [of _ pre] exI [of _ "map graph_of vlog"] exI [of _ post]) simp
  then show ?thesis
    using v m st' by blast
qed

section \<open>The rewrites of the pass on concrete graphs\<close>

text \<open>The state of the loop at its iteration number \<open>k\<close>, counted from 0.\<close>

definition state_no :: "graph \<Rightarrow> nat \<Rightarrow> trav \<times> smap" where
  "state_no g k = states (begin_trav g) (init_state g) ! k"

text \<open>
  Two graph inputs, an operation on the second one, a guarded addition and a use of the
  sum. In \<open>graph_add_zero\<close> the first input is known to be undefined and the addition
  takes it and the result of the operation; in \<open>graph_add_nonzero\<close> both inputs are known
  to be defined and the addition takes the two.
\<close>

definition graph_add_zero :: graph where
  "graph_add_zero =
     \<lparr>ginputs = [2, 3],
      gnodes = [Node 9 (other_kind 0) [3] [6] [],
                Node 10 prim_AutogradAdd [2, 6] [4] [],
                Node 11 (other_kind 1) [4] [5] []],
      goutputs = [5],
      vtype = (\<lambda>v. if v = 2 then TensorType (Some True) else TensorType None)\<rparr>"

definition graph_add_nonzero :: graph where
  "graph_add_nonzero =
     \<lparr>ginputs = [2, 3],
      gnodes = [Node 9 (other_kind 0) [3] [6] [],
                Node 10 prim_AutogradAdd [2, 3] [4] [],
                Node 11 (other_kind 1) [4] [5] []],
      goutputs = [5],
      vtype = (\<lambda>v. TensorType (Some False))\<rparr>"

theorem add_with_zero_is_dropped_witness:
  "case specializeAutogradZero graph_add_zero of
     Inl e \<Rightarrow> False
   | Inr (log, g') \<Rightarrow>
       (case state_no graph_add_zero 1 of
          (t, st) \<Rightarrow>
            pending t = [Node 10 prim_AutogradAdd [2, 6] [4] [], Node 11 (other_kind 1) [4] [5] []]
            \<and> state_at st 2 = Zero
            \<and> (\<exists>t'. passed t' = [Node 9 (other_kind 0) [3] [6] []]
                  \<and> pending t' = [Node 11 (other_kind 1) [6] [5] []]
                  \<and> (\<exists>pre post.
                        log = pre @ [graph_of (replaceAllUsesWith 4 6 t), graph_of t'] @ post
                        \<and> last (graph_add_zero # pre) = graph_of t)
                  \<and> (\<exists>st'. (t', st') \<in> set (states (begin_trav graph_add_zero)
                                               (init_state graph_add_zero)))
                  \<and> 4 \<notin> set (uses t') \<and> 10 \<notin> set (node_ids t'))
            \<and> gnodes g' = [Node 9 (other_kind 0) [3] [6] [], Node 11 (other_kind 1) [6] [5] []])"
proof -
  let ?g = graph_add_zero
  let ?n = "Node 10 prim_AutogradAdd [2, 6] [4] []"
  let ?rest = "[Node 11 (other_kind 1) [4] [5] []]"
  obtain t st where s: "state_no ?g 1 = (t, st)"
    by force
  have "case specializeAutogradZero ?g of
          Inl e \<Rightarrow> False
        | Inr (log, g') \<Rightarrow>
            gnodes g' = [Node 9 (other_kind 0) [3] [6] [], Node 11 (other_kind 1) [6] [5] []]"
    by code_simp
  then obtain log g' where r: "specializeAutogradZero ?g = Inr (log, g')"
    and fin: "gnodes g' = [Node 9 (other_kind 0) [3] [6] [], Node 11 (other_kind 1) [6] [5] []]"
    by (auto split: sum.splits)
  have ev: "1 < length (states (begin_trav ?g) (init_state ?g))
      \<and> (case state_no ?g 1 of
           (t, st) \<Rightarrow> passed t = [Node 9 (other_kind 0) [3] [6] []] \<and> pending t = ?n # ?rest
             \<and> state_at st 2 = Zero)"
    by code_simp
  from ev have "1 < length (states (begin_trav ?g) (init_state ?g))"
    by (rule conjunct1)
  then have m: "(t, st) \<in> set (states (begin_trav ?g) (init_state ?g))"
    using s nth_mem unfolding state_no_def by metis
  from ev have "case state_no ?g 1 of
           (t, st) \<Rightarrow> passed t = [Node 9 (other_kind 0) [3] [6] []] \<and> pending t = ?n # ?rest
             \<and> state_at st 2 = Zero"
    by (rule conjunct2)
  then have p: "passed t = [Node 9 (other_kind 0) [3] [6] []]" and 1: "pending t = ?n # ?rest"
    and z: "state_at st 2 = Zero"
    unfolding s by simp_all
  have 2: "kind ?n = prim_AutogradAdd" by simp
  have 3: "input_at ?n 0 = Inr 2" "input_at ?n 1 = Inr 6" "output_of ?n = Inr 4"
    by (simp_all add: input_at_def output_of_def)
  have 4: "state_at st 2 = Zero \<or> state_at st 6 = Zero"
    using z by simp
  have 5: "6 = (if state_at st 2 = Zero then 6 else (2::nat))"
    by (simp add: z)
  have 6: "(4::nat) \<noteq> 6" by simp
  have 7: "nid ?n \<notin> set (concat (map ids_node (passed t @ ?rest)))"
    by (simp add: p)
  let ?t' = "(replaceAllUsesWith 4 6 t)\<lparr>pending := map (rauw_node 4 6) ?rest\<rparr>"
  note th = add_with_zero_is_dropped [OF r m 1 2 3 4 5 6 7 refl]
  have q: "passed ?t' = [Node 9 (other_kind 0) [3] [6] []]"
    "pending ?t' = [Node 11 (other_kind 1) [6] [5] []]"
    by (simp_all add: p subst_def)
  from th have e1: "\<exists>pre post.
      log = pre @ [graph_of (replaceAllUsesWith 4 6 t), graph_of ?t'] @ post
      \<and> last (graph_add_zero # pre) = graph_of t"
    by (rule conjunct1)
  from th have e2: "\<exists>st'. (?t', st') \<in> set (states (begin_trav ?g) (init_state ?g))"
    by blast
  from th have e3: "4 \<notin> set (uses ?t')" "10 \<notin> set (node_ids ?t')"
    by simp_all
  have "\<exists>t'. passed t' = [Node 9 (other_kind 0) [3] [6] []]
                  \<and> pending t' = [Node 11 (other_kind 1) [6] [5] []]
                  \<and> (\<exists>pre post.
                        log = pre @ [graph_of (replaceAllUsesWith 4 6 t), graph_of t'] @ post
                        \<and> last (graph_add_zero # pre) = graph_of t)
                  \<and> (\<exists>st'. (t', st') \<in> set (states (begin_trav graph_add_zero)
                                               (init_state graph_add_zero)))
                  \<and> 4 \<notin> set (uses t') \<and> 10 \<notin> set (node_ids t')"
    using q e1 e2 e3 by (intro exI [of _ ?t'] conjI)
  then show ?thesis
    unfolding r s using 1 z fin by simp
qed

theorem add_of_nonzeros_becomes_plain_add_witness:
  "case specializeAutogradZero graph_add_nonzero of
     Inl e \<Rightarrow> False
   | Inr (log, g') \<Rightarrow>
       (case state_no graph_add_nonzero 1 of
          (t, st) \<Rightarrow>
            pending t = [Node 10 prim_AutogradAdd [2, 3] [4] [], Node 11 (other_kind 1) [4] [5] []]
            \<and> state_at st 2 = Nonzero \<and> state_at st 3 = Nonzero
            \<and> (\<exists>t'. passed t' = [Node 9 (other_kind 0) [3] [6] [],
                                  Node 12 (prim_Constant 1) [] [7] [],
                                  Node 13 aten_add [2, 3, 7] [8] []]
                  \<and> pending t' = [Node 11 (other_kind 1) [8] [5] []]
                  \<and> (\<exists>pre vlog post. log = pre @ vlog @ post \<and> length vlog = 8
                        \<and> last vlog = graph_of t' \<and> last (graph_add_nonzero # pre) = graph_of t)
                  \<and> (\<exists>st'. (t', st') \<in> set (states (begin_trav graph_add_nonzero)
                                               (init_state graph_add_nonzero))
                        \<and> state_at st' 8 = Nonzero)
                  \<and> t_type t' 8 = t_type t 4
                  \<and> 4 \<notin> set (uses t') \<and> 10 \<notin> set (node_ids t'))
            \<and> gnodes g' = [Node 9 (other_kind 0) [3] [6] [],
                            Node 12 (prim_Constant 1) [] [7] [],
                            Node 13 aten_add [2, 3, 7] [8] [],
                            Node 11 (other_kind 1) [8] [5] []])"
proof -
  let ?g = graph_add_nonzero
  let ?n = "Node 10 prim_AutogradAdd [2, 3] [4] []"
  let ?rest = "[Node 11 (other_kind 1) [4] [5] []]"
  obtain t st where s: "state_no ?g 1 = (t, st)"
    by force
  have "case specializeAutogradZero ?g of
          Inl e \<Rightarrow> False
        | Inr (log, g') \<Rightarrow>
            gnodes g' = [Node 9 (other_kind 0) [3] [6] [],
                         Node 12 (prim_Constant 1) [] [7] [],
                         Node 13 aten_add [2, 3, 7] [8] [],
                         Node 11 (other_kind 1) [8] [5] []]"
    by code_simp
  then obtain log g' where r: "specializeAutogradZero ?g = Inr (log, g')"
    and fin: "gnodes g' = [Node 9 (other_kind 0) [3] [6] [],
                         Node 12 (prim_Constant 1) [] [7] [],
                         Node 13 aten_add [2, 3, 7] [8] [],
                         Node 11 (other_kind 1) [8] [5] []]"
    by (auto split: sum.splits)
  have ev: "1 < length (states (begin_trav ?g) (init_state ?g))
      \<and> (case state_no ?g 1 of
           (t, st) \<Rightarrow> passed t = [Node 9 (other_kind 0) [3] [6] []] \<and> pending t = ?n # ?rest
             \<and> t_inputs t = [2, 3] \<and> t_outputs t = [5]
             \<and> state_at st 2 = Nonzero \<and> state_at st 3 = Nonzero)"
    by code_simp
  from ev have "1 < length (states (begin_trav ?g) (init_state ?g))"
    by (rule conjunct1)
  then have m: "(t, st) \<in> set (states (begin_trav ?g) (init_state ?g))"
    using s nth_mem unfolding state_no_def by metis
  from ev have "case state_no ?g 1 of
           (t, st) \<Rightarrow> passed t = [Node 9 (other_kind 0) [3] [6] []] \<and> pending t = ?n # ?rest
             \<and> t_inputs t = [2, 3] \<and> t_outputs t = [5]
             \<and> state_at st 2 = Nonzero \<and> state_at st 3 = Nonzero"
    by (rule conjunct2)
  then have p: "passed t = [Node 9 (other_kind 0) [3] [6] []]" and 1: "pending t = ?n # ?rest"
    and io: "t_inputs t = [2, 3]" "t_outputs t = [5]"
    and 4: "state_at st 2 = Nonzero" "state_at st 3 = Nonzero"
    unfolding s by simp_all
  have 2: "kind ?n = prim_AutogradAdd" by simp
  have 3: "input_at ?n 0 = Inr 2" "input_at ?n 1 = Inr 3" "output_of ?n = Inr 4"
    by (simp_all add: input_at_def output_of_def)
  have 5: "(2::nat) \<noteq> 4" "(3::nat) \<noteq> 4" by simp_all
  have 7: "nid ?n \<notin> set (concat (map ids_node (passed t @ ?rest)))"
    by (simp add: p)
  have c: "fresh_value t = 7" and i: "fresh_node t = 12"
    by (simp_all add: fresh_value_def fresh_node_def uses_def defs_def node_ids_def p 1 io)
  have a: "fresh_value (snd (insertConstant 1 t)) = 8"
    and j: "fresh_node (snd (insertConstant 1 t)) = 13"
    by (simp_all add: insertConstant_eq c i)
      (simp_all add: fresh_value_def fresh_node_def uses_def defs_def node_ids_def p 1 io)
  let ?t' = "\<lparr>t_inputs = t_inputs t,
       passed = map (rauw_node 4 8) (passed t) @
                [Node 12 (prim_Constant 1) [] [7] [], Node 13 aten_add [2, 3, 7] [8] []],
       pending = map (rauw_node 4 8) ?rest,
       t_outputs = map (subst 4 8) (t_outputs t),
       t_type = (t_type t)(7 := IntType, 8 := t_type t 4)\<rparr>"
  note th = add_of_nonzeros_becomes_plain_add
    [OF r m 1 2 3 4 5 7 c [symmetric] refl a [symmetric] refl refl, unfolded i j]
  have q: "passed ?t' = [Node 9 (other_kind 0) [3] [6] [],
                                  Node 12 (prim_Constant 1) [] [7] [],
                                  Node 13 aten_add [2, 3, 7] [8] []]"
    "pending ?t' = [Node 11 (other_kind 1) [8] [5] []]"
    by (simp_all add: p subst_def)
  from th have e1: "\<exists>pre vlog post. log = pre @ vlog @ post \<and> length vlog = 8
                        \<and> last vlog = graph_of ?t' \<and> last (graph_add_nonzero # pre) = graph_of t"
    by (rule conjunct1)
  from th have e2: "\<exists>st'. (?t', st') \<in> set (states (begin_trav ?g) (init_state ?g))
                        \<and> state_at st' 8 = Nonzero"
    by blast
  from th have e3: "t_type ?t' 8 = t_type t 4" "4 \<notin> set (uses ?t')" "10 \<notin> set (node_ids ?t')"
    by simp_all
  have "\<exists>t'. passed t' = [Node 9 (other_kind 0) [3] [6] [],
                                  Node 12 (prim_Constant 1) [] [7] [],
                                  Node 13 aten_add [2, 3, 7] [8] []]
                  \<and> pending t' = [Node 11 (other_kind 1) [8] [5] []]
                  \<and> (\<exists>pre vlog post. log = pre @ vlog @ post \<and> length vlog = 8
                        \<and> last vlog = graph_of t' \<and> last (graph_add_nonzero # pre) = graph_of t)
                  \<and> (\<exists>st'. (t', st') \<in> set (states (begin_trav graph_add_nonzero)
                                               (init_state graph_add_nonzero))
                        \<and> state_at st' 8 = Nonzero)
                  \<and> t_type t' 8 = t_type t 4
                  \<and> 4 \<notin> set (uses t') \<and> 10 \<notin> set (node_ids t')"
    using q e1 e2 e3 by (intro exI [of _ ?t'] conjI)
  then show ?thesis
    unfolding r s using 1 4 fin by simp
qed

text \<open>
  A lowered gradient block: an any-nonzero test of the graph input, a conditional on its
  result whose first block computes the gradient and whose second block yields a zero
  producer, and a use of the result. The input is known to be undefined when \<open>u\<close> holds
  and known to be defined otherwise.
\<close>

definition graph_guarded :: "bool \<Rightarrow> graph" where
  "graph_guarded u =
     \<lparr>ginputs = [2],
      gnodes = [Node 10 prim_AutogradAnyNonZero [2] [3] [],
                Node 11 prim_If [3] [4]
                  [Block [Node 12 (other_kind 0) [2] [5] []] [5],
                   Block [Node 13 prim_AutogradZero [] [6] []] [6]],
                Node 14 (other_kind 1) [4] [7] []],
      goutputs = [7],
      vtype = (\<lambda>v. if v = 2 then TensorType (Some u) else TensorType None)\<rparr>"

theorem all_zero_conditional_collapses_witness:
  "case specializeAutogradZero (graph_guarded True) of
     Inl e \<Rightarrow> False
   | Inr (log, g') \<Rightarrow>
       (case state_no (graph_guarded True) 1 of
          (t, st) \<Rightarrow>
            hd (pending t) = Node 11 prim_If [3] [4]
                  [Block [Node 12 (other_kind 0) [2] [5] []] [5],
                   Block [Node 13 prim_AutogradZero [] [6] []] [6]]
            \<and> node_of t 3 = Node 10 prim_AutogradAnyNonZero [2] [3] []
            \<and> state_at st 2 = Zero
            \<and> (\<exists>t'. passed t' = [Node 10 prim_AutogradAnyNonZero [2] [3] []]
                  \<and> pending t' = [Node 15 prim_AutogradZero [] [8] [],
                                   Node 14 (other_kind 1) [8] [7] []]
                  \<and> (\<exists>pre vlog post. log = pre @ vlog @ post \<and> vlog \<noteq> []
                        \<and> last vlog = graph_of t'
                        \<and> last (graph_guarded True # pre) = graph_of t)
                  \<and> (\<exists>st'. (t', st') \<in> set (states (begin_trav (graph_guarded True))
                                               (init_state (graph_guarded True)))
                        \<and> state_at st' 8 = Zero)
                  \<and> 4 \<notin> set (uses t') \<and> 11 \<notin> set (node_ids t'))
            \<and> gnodes g' = [Node 10 prim_AutogradAnyNonZero [2] [3] [],
                            Node 15 prim_AutogradZero [] [8] [],
                            Node 14 (other_kind 1) [8] [7] []])"
proof -
  let ?g = "graph_guarded True"
  let ?n = "Node 11 prim_If [3] [4]
                  [Block [Node 12 (other_kind 0) [2] [5] []] [5],
                   Block [Node 13 prim_AutogradZero [] [6] []] [6]]"
  let ?rest = "[Node 14 (other_kind 1) [4] [7] []]"
  let ?a = "Node 10 prim_AutogradAnyNonZero [2] [3] []"
  obtain t st where s: "state_no ?g 1 = (t, st)"
    by force
  have "case specializeAutogradZero ?g of
          Inl e \<Rightarrow> False
        | Inr (log, g') \<Rightarrow>
            gnodes g' = [?a, Node 15 prim_AutogradZero [] [8] [],
                         Node 14 (other_kind 1) [8] [7] []]"
    by code_simp
  then obtain log g' where r: "specializeAutogradZero ?g = Inr (log, g')"
    and fin: "gnodes g' = [?a, Node 15 prim_AutogradZero [] [8] [],
                         Node 14 (other_kind 1) [8] [7] []]"
    by (auto split: sum.splits)
  have ev: "1 < length (states (begin_trav ?g) (init_state ?g))
      \<and> (case state_no ?g 1 of
           (t, st) \<Rightarrow> passed t = [?a] \<and> pending t = ?n # ?rest
             \<and> t_inputs t = [2] \<and> t_outputs t = [7]
             \<and> node_of t 3 = ?a \<and> state_at st 2 = Zero)"
    by code_simp
  from ev have "1 < length (states (begin_trav ?g) (init_state ?g))"
    by (rule conjunct1)
  then have m: "(t, st) \<in> set (states (begin_trav ?g) (init_state ?g))"
    using s nth_mem unfolding state_no_def by metis
  from ev have "case state_no ?g 1 of
           (t, st) \<Rightarrow> passed t = [?a] \<and> pending t = ?n # ?rest
             \<and> t_inputs t = [2] \<and> t_outputs t = [7]
             \<and> node_of t 3 = ?a \<and> state_at st 2 = Zero"
    by (rule conjunct2)
  then have p: "passed t = [?a]" and 1: "pending t = ?n # ?rest"
    and io: "t_inputs t = [2]" "t_outputs t = [7]"
    and fi: "node_of t 3 = ?a" and z: "state_at st 2 = Zero"
    unfolding s by simp_all
  have 2: "kind ?n = prim_If" by simp
  have 3: "input_at ?n 0 = Inr 3"
    by (simp add: input_at_def)
  have 4: "kind (node_of t 3) = prim_AutogradAnyNonZero"
    by (simp add: fi)
  have 5: "list_all (\<lambda>v. state_at st v = Zero) (inputs (node_of t 3))"
    by (simp add: fi z)
  have 6: "nid ?n \<notin> set (concat (map ids_node (passed t @ ?rest)))"
    by (simp add: p)
  have c: "fresh_value t = 8" and i: "fresh_node t = 15"
    by (simp_all add: fresh_value_def fresh_node_def uses_def defs_def node_ids_def p 1 io)
  let ?ps = "map (\<lambda>v. (v, 8)) (outputs ?n)"
  let ?t' = "\<lparr>t_inputs = t_inputs t,
               passed = map (rauw_nodes ?ps) (passed t),
               pending = Node 15 prim_AutogradZero [] [8] [] # map (rauw_nodes ?ps) ?rest,
               t_outputs = map (replace_uses ?ps) (t_outputs t),
               t_type = (t_type t)(8 := TensorType None)\<rparr>"
  note th = all_zero_conditional_collapses
    [OF r m 1 2 3 4 5 6 c [symmetric] refl refl refl, unfolded i]
  have q: "passed ?t' = [?a]"
    "pending ?t' = [Node 15 prim_AutogradZero [] [8] [], Node 14 (other_kind 1) [8] [7] []]"
    by (simp_all add: p subst_def)
  from th have "\<exists>pre vlog post. log = pre @ vlog @ post \<and> vlog \<noteq> []
            \<and> hd vlog = graph_of (t\<lparr>pending := ?n # Node 15 prim_AutogradZero [] [8] [] # ?rest,
                                     t_type := (t_type t)(8 := TensorType None)\<rparr>)
            \<and> last vlog = graph_of ?t' \<and> last (?g # pre) = graph_of t"
    by (rule conjunct1)
  then have e1: "\<exists>pre vlog post. log = pre @ vlog @ post \<and> vlog \<noteq> []
            \<and> last vlog = graph_of ?t' \<and> last (?g # pre) = graph_of t"
    by blast
  from th have e2: "\<exists>st'. (?t', st') \<in> set (states (begin_trav ?g) (init_state ?g))
                        \<and> state_at st' 8 = Zero"
    by blast
  from th have e3: "set (outputs ?n) \<inter> set (uses ?t') = {}" "nid ?n \<notin> set (node_ids ?t')"
    by blast+
  then have e4: "4 \<notin> set (uses ?t')" "11 \<notin> set (node_ids ?t')"
    by simp_all
  have "\<exists>t'. passed t' = [?a]
                  \<and> pending t' = [Node 15 prim_AutogradZero [] [8] [],
                                   Node 14 (other_kind 1) [8] [7] []]
                  \<and> (\<exists>pre vlog post. log = pre @ vlog @ post \<and> vlog \<noteq> []
                        \<and> last vlog = graph_of t'
                        \<and> last (graph_guarded True # pre) = graph_of t)
                  \<and> (\<exists>st'. (t', st') \<in> set (states (begin_trav (graph_guarded True))
                                               (init_state (graph_guarded True)))
                        \<and> state_at st' 8 = Zero)
                  \<and> 4 \<notin> set (uses t') \<and> 11 \<notin> set (node_ids t')"
    using q e1 e2 e4 by (intro exI [of _ ?t'] conjI)
  then show ?thesis
    unfolding r s using 1 fi z fin by simp
qed

theorem all_nonzero_conditional_is_inlined_witness:
  "case specializeAutogradZero (graph_guarded False) of
     Inl e \<Rightarrow> False
   | Inr (log, g') \<Rightarrow>
       (case state_no (graph_guarded False) 1 of
          (t, st) \<Rightarrow>
            hd (pending t) = Node 11 prim_If [3] [4]
                  [Block [Node 12 (other_kind 0) [2] [5] []] [5],
                   Block [Node 13 prim_AutogradZero [] [6] []] [6]]
            \<and> node_of t 3 = Node 10 prim_AutogradAnyNonZero [2] [3] []
            \<and> state_at st 2 = Nonzero
            \<and> (\<exists>t'. passed t' = [Node 10 prim_AutogradAnyNonZero [2] [3] [],
                                  Node 12 (other_kind 0) [2] [5] []]
                  \<and> pending t' = [Node 14 (other_kind 1) [5] [7] []]
                  \<and> (\<exists>pre vlog post. log = pre @ vlog @ post \<and> vlog \<noteq> []
                        \<and> last vlog = graph_of t'
                        \<and> last (graph_guarded False # pre) = graph_of t)
                  \<and> (\<exists>st'. (t', st') \<in> set (states (begin_trav (graph_guarded False))
                                               (init_state (graph_guarded False)))
                        \<and> state_at st' 5 = Nonzero)
                  \<and> 4 \<notin> set (uses t') \<and> 11 \<notin> set (node_ids t'))
            \<and> gnodes g' = [Node 10 prim_AutogradAnyNonZero [2] [3] [],
                            Node 12 (other_kind 0) [2] [5] [],
                            Node 14 (other_kind 1) [5] [7] []])"
proof -
  let ?g = "graph_guarded False"
  let ?n = "Node 11 prim_If [3] [4]
                  [Block [Node 12 (other_kind 0) [2] [5] []] [5],
                   Block [Node 13 prim_AutogradZero [] [6] []] [6]]"
  let ?rest = "[Node 14 (other_kind 1) [4] [7] []]"
  let ?a = "Node 10 prim_AutogradAnyNonZero [2] [3] []"
  let ?b = "Node 12 (other_kind 0) [2] [5] []"
  obtain t st where s: "state_no ?g 1 = (t, st)"
    by force
  have "case specializeAutogradZero ?g of
          Inl e \<Rightarrow> False
        | Inr (log, g') \<Rightarrow> gnodes g' = [?a, ?b, Node 14 (other_kind 1) [5] [7] []]"
    by code_simp
  then obtain log g' where r: "specializeAutogradZero ?g = Inr (log, g')"
    and fin: "gnodes g' = [?a, ?b, Node 14 (other_kind 1) [5] [7] []]"
    by (auto split: sum.splits)
  have ev: "1 < length (states (begin_trav ?g) (init_state ?g))
      \<and> (case state_no ?g 1 of
           (t, st) \<Rightarrow> passed t = [?a] \<and> pending t = ?n # ?rest
             \<and> node_of t 3 = ?a \<and> state_at st 2 = Nonzero)"
    by code_simp
  from ev have "1 < length (states (begin_trav ?g) (init_state ?g))"
    by (rule conjunct1)
  then have m: "(t, st) \<in> set (states (begin_trav ?g) (init_state ?g))"
    using s nth_mem unfolding state_no_def by metis
  from ev have "case state_no ?g 1 of
           (t, st) \<Rightarrow> passed t = [?a] \<and> pending t = ?n # ?rest
             \<and> node_of t 3 = ?a \<and> state_at st 2 = Nonzero"
    by (rule conjunct2)
  then have p: "passed t = [?a]" and 1: "pending t = ?n # ?rest"
    and fi: "node_of t 3 = ?a" and z: "state_at st 2 = Nonzero"
    unfolding s by simp_all
  have 2: "kind ?n = prim_If" by simp
  have 3: "input_at ?n 0 = Inr 3"
    by (simp add: input_at_def)
  have 4: "kind (node_of t 3) = prim_AutogradAnyNonZero" "inputs (node_of t 3) \<noteq> []"
    by (simp_all add: fi)
  have 5: "list_all (\<lambda>v. state_at st v = Nonzero) (inputs (node_of t 3))"
    by (simp add: fi z)
  have 6: "blocks ?n = Block [?b] [5] # [Block [Node 13 prim_AutogradZero [] [6] []] [6]]"
    by simp
  have 7: "length (outputs ?n) \<le> length [5::nat]" "set (outputs ?n) \<inter> set [5::nat] = {}"
    "distinct (outputs ?n)"
    by simp_all
  have 8: "nid ?n \<notin> set (concat (map ids_node (passed t @ [?b] @ ?rest)))"
    by (simp add: p)
  let ?ps = "zip (outputs ?n) [5::nat]"
  let ?t' = "\<lparr>t_inputs = t_inputs t,
               passed = map (rauw_nodes ?ps) (passed t @ [?b]),
               pending = map (rauw_nodes ?ps) ?rest,
               t_outputs = map (replace_uses ?ps) (t_outputs t),
               t_type = t_type t\<rparr>"
  note th = all_nonzero_conditional_is_inlined [OF r m 1 2 3 4 5 6 7 8 refl refl]
  have q: "passed ?t' = [?a, ?b]" "pending ?t' = [Node 14 (other_kind 1) [5] [7] []]"
    by (simp_all add: p subst_def)
  from th have e1: "\<exists>pre vlog post. log = pre @ vlog @ post \<and> vlog \<noteq> []
            \<and> last vlog = graph_of ?t' \<and> last (?g # pre) = graph_of t"
    by (rule conjunct1)
  from th have "\<exists>st'. (?t', st') \<in> set (states (begin_trav ?g) (init_state ?g))
      \<and> list_all (\<lambda>v. state_at st' v = Nonzero) (take (length (outputs ?n)) [5])"
    by blast
  then have e2: "\<exists>st'. (?t', st') \<in> set (states (begin_trav ?g) (init_state ?g))
                        \<and> state_at st' 5 = Nonzero"
    by simp
  from th have e3: "set (outputs ?n) \<inter> set (uses ?t') = {}" "nid ?n \<notin> set (node_ids ?t')"
    by blast+
  then have e4: "4 \<notin> set (uses ?t')" "11 \<notin> set (node_ids ?t')"
    by simp_all
  have "\<exists>t'. passed t' = [?a, ?b]
                  \<and> pending t' = [Node 14 (other_kind 1) [5] [7] []]
                  \<and> (\<exists>pre vlog post. log = pre @ vlog @ post \<and> vlog \<noteq> []
                        \<and> last vlog = graph_of t'
                        \<and> last (graph_guarded False # pre) = graph_of t)
                  \<and> (\<exists>st'. (t', st') \<in> set (states (begin_trav (graph_guarded False))
                                               (init_state (graph_guarded False)))
                        \<and> state_at st' 5 = Nonzero)
                  \<and> 4 \<notin> set (uses t') \<and> 11 \<notin> set (node_ids t')"
    using q e1 e2 e4 by (intro exI [of _ ?t'] conjI)
  then show ?thesis
    unfolding r s using 1 fi z fin by simp
qed

text \<open>
  The same block with an any-nonzero test that has no operand.
\<close>

definition graph_empty_guard :: graph where
  "graph_empty_guard =
     \<lparr>ginputs = [2],
      gnodes = [Node 10 prim_AutogradAnyNonZero [] [3] [],
                Node 11 prim_If [3] [4]
                  [Block [Node 12 (other_kind 0) [2] [5] []] [5],
                   Block [Node 13 prim_AutogradZero [] [6] []] [6]],
                Node 14 (other_kind 1) [4] [7] []],
      goutputs = [7],
      vtype = (\<lambda>v. TensorType (Some False))\<rparr>"

text \<open>
  Claim C7 as stated fails for an any-nonzero test without operands: all of its operands
  are classified \<open>Nonzero\<close>, and all of them are classified \<open>Zero\<close>. The test for
  \<open>Zero\<close> comes first (line 119), so the pass replaces the conditional by a zero producer
  and does not inline its first block: the node of that block is not in the graph the
  pass returns, and the use of the conditional's output reads the zero producer.
\<close>

theorem empty_guard_counterexample:
  "(case state_no graph_empty_guard 1 of
      (t, st) \<Rightarrow>
        (case pending t of
           [] \<Rightarrow> False
         | n # rest \<Rightarrow>
             kind n = prim_If \<and> input_at n 0 = Inr 3
             \<and> kind (node_of t 3) = prim_AutogradAnyNonZero
             \<and> list_all (\<lambda>v. state_at st v = Nonzero) (inputs (node_of t 3))))
   \<and> map_sum id (\<lambda>(log, g'). (length log, gnodes g', goutputs g'))
        (specializeAutogradZero graph_empty_guard)
       = Inr (3, [Node 10 prim_AutogradAnyNonZero [] [3] [],
                  Node 15 prim_AutogradZero [] [8] [],
                  Node 14 (other_kind 1) [8] [7] []], [7])"
  by code_simp

section \<open>A second run of the pass\<close>

text \<open>
  The first run does not visit the nodes it moves out of a conditional: it classifies
  the outputs of the inlined block \<open>Nonzero\<close> and goes on after the conditional. A
  second run finds these nodes at the top level, visits them and classifies their outputs
  by their kind. It also knows less than the first run about the values the first run
  created: the result of an \<open>aten::add\<close> the first run classified \<open>Nonzero\<close> is \<open>Unknown\<close>
  to the second run.
\<close>













text \<open>
  The outputs of the zero producers the iterator has not reached. The first run has
  classified the output of a zero producer it created (line 121) before it reaches the
  node; the second run classifies it when it reaches the node.
\<close>

definition zero_outs :: "node list \<Rightarrow> vid set" where
  "zero_outs ns = set (top_defs (filter (\<lambda>m. kind m = prim_AutogradZero) ns))"

lemma zero_outs_simps [simp]:
  "zero_outs [] = {}"
  "zero_outs (n # ns) = (if kind n = prim_AutogradZero then set (outputs n) else {}) \<union> zero_outs ns"
  by (simp_all add: zero_outs_def)

lemma zero_outs_rauw_nodes [simp]: "zero_outs (map (rauw_nodes ps) ns) = zero_outs ns"
  by (induction ns) simp_all










lemma rauw_trav_single: "replaceAllUsesWith v w t = rauw_trav [(v, w)] t"
  by simp
































lemma node_of_cong:
  "passed a @ pending a = passed b @ pending b \<Longrightarrow> t_inputs a = t_inputs b \<Longrightarrow>
   node_of a = node_of b"
proof -
  assume g: "passed a @ pending a = passed b @ pending b" and i: "t_inputs a = t_inputs b"
  have p: "param_node a = param_node b"
    by (simp add: param_node_def i)
  have q: "producer a = producer b"
    unfolding producer_def g ..
  show ?thesis
    unfolding node_of_def p q ..
qed

lemma node_of_advance [simp]: "node_of (advance t) = node_of t"
  by (rule node_of_cong) (simp_all add: advance_def split: list.splits)

lemma t_type_advance [simp]: "t_type (advance t) = t_type t"
  by (simp add: advance_def split: list.splits)


















end
